theory Spec2Isabelle
  imports Main
begin


section \<open>Regular expressions of the linter\<close>

text \<open>
  The linter classifies a file name with three compiled patterns of Go's \<^verbatim>\<open>regexp\<close>
  package. The model below covers the fragment of the syntax that the three patterns use:
  the anchors, literals, the two character classes \<^verbatim>\<open>[0-9]\<close> and \<^verbatim>\<open>.\<close>,
  greedy repetition of a class, the greedy optional group, concatenation, alternation and
  capture groups. Matching is the leftmost-first search of the package: the match starts as
  early as possible, and among the matches at that start it is the one a backtracking
  search finds first. \<^verbatim>\<open>run\<close> lists the states such a search reaches, in the order
  it reaches them.

  File names are byte strings. The class \<^verbatim>\<open>.\<close> matches any character but the
  line feed; all literals of the patterns are ASCII, so matching byte by byte and matching
  rune by rune split a name at the same places.
\<close>

datatype cclass = Digit | AnyNoNL

datatype re =
    Bol
  | Eol
  | Lit string
  | PlusC cclass
  | StarC cclass
  | Opt re
  | Seq re re
  | Alt re re
  | Cap nat re

type_synonym caps = "nat \<Rightarrow> string option"

type_synonym mstate = "nat \<times> string \<times> caps"

definition is_digit :: "char \<Rightarrow> bool" where
  "is_digit c = (48 \<le> (of_char c :: nat) \<and> (of_char c :: nat) \<le> 57)"

definition is_nl :: "char \<Rightarrow> bool" where
  "is_nl c = ((of_char c :: nat) = 10)"

fun in_class :: "cclass \<Rightarrow> char \<Rightarrow> bool" where
  "in_class Digit c = is_digit c"
| "in_class AnyNoNL c = (\<not> is_nl c)"

definition has_prefix :: "string \<Rightarrow> string \<Rightarrow> bool" where
  "has_prefix l s = (take (length l) s = l)"

fun run :: "re \<Rightarrow> mstate \<Rightarrow> mstate list" where
  "run Bol (p, s, c) = (if p = 0 then [(p, s, c)] else [])"
| "run Eol (p, s, c) = (if s = [] then [(p, s, c)] else [])"
| "run (Lit l) (p, s, c) =
     (if has_prefix l s then [(p + length l, drop (length l) s, c)] else [])"
| "run (PlusC k) (p, s, c) =
     map (\<lambda>i. (p + i, drop i s, c)) (rev [1 ..< Suc (length (takeWhile (in_class k) s))])"
| "run (StarC k) (p, s, c) =
     map (\<lambda>i. (p + i, drop i s, c)) (rev [0 ..< Suc (length (takeWhile (in_class k) s))])"
| "run (Opt r) st = run r st @ [st]"
| "run (Seq r1 r2) st = concat (map (run r2) (run r1 st))"
| "run (Alt r1 r2) st = run r1 st @ run r2 st"
| "run (Cap i r) (p, s, c) =
     map (\<lambda>(p', s', c'). (p', s', c'(i \<mapsto> take (p' - p) s))) (run r (p, s, c))"

fun seqs :: "re list \<Rightarrow> re" where
  "seqs [] = Lit []"
| "seqs [r] = r"
| "seqs (r # rs) = Seq r (seqs rs)"

text \<open>
  \<^verbatim>\<open>FindStringSubmatch\<close>: the captures of the leftmost-first match, or nothing.
  A group that took no part in the match reads as the empty string (\<^verbatim>\<open>sub\<close>).
\<close>

definition all_runs :: "re \<Rightarrow> string \<Rightarrow> mstate list" where
  "all_runs r s = concat (map (\<lambda>i. run r (i, drop i s, Map.empty)) [0 ..< Suc (length s)])"

definition FindStringSubmatch :: "re \<Rightarrow> string \<Rightarrow> caps option" where
  "FindStringSubmatch r s =
     (case all_runs r s of [] \<Rightarrow> None | (p, s', c) # _ \<Rightarrow> Some c)"

definition MatchString :: "re \<Rightarrow> string \<Rightarrow> bool" where
  "MatchString r s = (all_runs r s \<noteq> [])"

definition sub :: "caps \<Rightarrow> nat \<Rightarrow> string" where
  "sub c i = (case c i of None \<Rightarrow> [] | Some x \<Rightarrow> x)"

definition up_or_down :: re where
  "up_or_down = Alt (Lit ''up'') (Lit ''down'')"

definition migratePattern :: re where
  "migratePattern =
     seqs [Bol, Cap 1 (PlusC Digit), Lit ''_'', Cap 2 (PlusC AnyNoNL), Lit ''.'',
           Cap 3 up_or_down, Lit ''.'', Cap 4 (PlusC AnyNoNL), Eol]"

definition migrationLikeRe :: re where
  "migrationLikeRe =
     seqs [Bol, PlusC Digit, Lit ''_'', PlusC AnyNoNL, Lit ''.'',
           up_or_down, Lit ''.'', PlusC AnyNoNL]"

definition migrationPrefixRe :: re where
  "migrationPrefixRe =
     seqs [Bol, Cap 1 (PlusC Digit), Lit ''_'', Cap 2 (PlusC AnyNoNL), Lit ''.'',
           Cap 3 up_or_down, Opt (Seq (Lit ''.'') (Cap 4 (StarC AnyNoNL))), Eol]"

section \<open>Library functions the linter calls\<close>

text \<open>
  \<^verbatim>\<open>strconv.ParseInt(s, 10, 64)\<close>: an optional sign, then the digit loop of
  \<^verbatim>\<open>ParseUint\<close>, which stops at the first character that is no decimal digit (a syntax
  error) or at the first step that leaves 64 unsigned bits (a range error), then the check
  that the value fits 64 signed bits.
\<close>

datatype num_error = ErrSyntax | ErrRange

definition digit_val :: "char \<Rightarrow> int" where
  "digit_val c = (of_char c :: int) - 48"

definition maxUint64 :: int where
  "maxUint64 = 2 ^ 64 - 1"

fun parseUint_loop :: "int \<Rightarrow> string \<Rightarrow> num_error + int" where
  "parseUint_loop n [] = Inr n"
| "parseUint_loop n (c # cs) =
     (if \<not> is_digit c then Inl ErrSyntax
      else if n \<ge> maxUint64 div 10 + 1 then Inl ErrRange
      else if n * 10 + digit_val c > maxUint64 then Inl ErrRange
      else parseUint_loop (n * 10 + digit_val c) cs)"

definition ParseUint :: "string \<Rightarrow> num_error + int" where
  "ParseUint s = (if s = [] then Inl ErrSyntax else parseUint_loop 0 s)"

definition ParseInt :: "string \<Rightarrow> num_error + int" where
  "ParseInt s =
     (if s = [] then Inl ErrSyntax
      else
        let neg = (hd s = CHR ''-'');
            ds = (if hd s = CHR ''+'' \<or> hd s = CHR ''-'' then tl s else s)
        in case ParseUint ds of
             Inl ErrSyntax \<Rightarrow> Inl ErrSyntax
           | Inl ErrRange \<Rightarrow> Inl ErrRange
           | Inr un \<Rightarrow>
               if \<not> neg \<and> un \<ge> 2 ^ 63 then Inl ErrRange
               else if neg \<and> un > 2 ^ 63 then Inl ErrRange
               else Inr (if neg then - un else un))"

text \<open>\<^verbatim>\<open>strings.LastIndexByte\<close>, \<^verbatim>\<open>strings.Contains(s, ".")\<close> and
  \<^verbatim>\<open>strings.Join\<close>.\<close>

definition LastIndexByte :: "string \<Rightarrow> char \<Rightarrow> int" where
  "LastIndexByte s c =
     (if c \<in> set s then int (length s) - 1 - int (length (takeWhile (\<lambda>x. x \<noteq> c) (rev s)))
      else - 1)"

definition contains_dot :: "string \<Rightarrow> bool" where
  "contains_dot s = (CHR ''.'' \<in> set s)"

fun strings_Join :: "string list \<Rightarrow> string \<Rightarrow> string" where
  "strings_Join [] sep = []"
| "strings_Join [a] sep = a"
| "strings_Join (a # b # r) sep = a @ sep @ strings_Join (b # r) sep"

text \<open>64-bit signed arithmetic: the value an \<^verbatim>\<open>int64\<close> holds after an operation
  whose mathematical result is \<open>x\<close>.\<close>

definition wrap64 :: "int \<Rightarrow> int" where
  "wrap64 x = (x + 2 ^ 63) mod 2 ^ 64 - 2 ^ 63"

section \<open>Data of the linter\<close>

record Config =
  Path :: string
  Ext :: string
  EnforceExt :: bool
  NoGaps :: bool
  Digits :: int
  RequireDown :: bool
  StrictNameMatch :: bool
  StrictPattern :: bool

text \<open>The field \<^verbatim>\<open>Path\<close> of a migration is \<open>mPath\<close> here: the configuration has
  a field of that name too.\<close>

record Migration =
  mPath :: string
  FileName :: string
  VersionStr :: string
  Version :: int
  NamePart :: string
  Direction :: string
  ExtPart :: string
  FinalExt :: string

record VersionGroup =
  Up :: "Migration list"
  Down :: "Migration list"

text \<open>
  A lint error is the result of one \<^verbatim>\<open>fmt.Sprintf\<close> call of the source. Each
  constructor stands for one format string and carries that call's arguments in their order:
  \<^item> \<open>StatSymlinkFailed\<close>: \<^verbatim>\<open>failed to stat symlink: %s: %v\<close>
  \<^item> \<open>ExtMismatchPart\<close>: \<^verbatim>\<open>extension mismatch: %s has ext part %q, expected %q\<close>
  \<^item> \<open>ExtMismatchFinal\<close>:
    \<^verbatim>\<open>extension mismatch: %s has final extension %q (ext part %q), expected %q\<close>
  \<^item> \<open>UnmatchedFile\<close>: \<^verbatim>\<open>unmatched file: %s does not match ...\<close>
  \<^item> \<open>VersionParseError\<close>: \<^verbatim>\<open>version parse error in %s: %v\<close>, the error being
    that of \<^verbatim>\<open>ParseInt\<close> on the version string
  \<^item> \<open>DigitsMismatch\<close>: \<^verbatim>\<open>digits mismatch: %s has VERSION length %d, expected %d\<close>
  \<^item> \<open>DuplicateUp\<close>, \<open>DuplicateDown\<close>:
    \<^verbatim>\<open>duplicate up migrations for version %d: %s\<close> and its twin
  \<^item> \<open>MissingDown\<close>, \<open>MissingUp\<close>: \<^verbatim>\<open>missing down migration for version %d\<close>
    and its twin
  \<^item> \<open>NameExtMismatch\<close>: \<^verbatim>\<open>name/ext mismatch for version %d: up=%s, down=%s\<close>
  \<^item> \<open>MissingVersion\<close>: \<^verbatim>\<open>missing version %d (between %d and %d)\<close>
  \<^item> \<open>MissingVersions\<close>: \<^verbatim>\<open>missing versions %d..%d (between %d and %d)\<close>
\<close>

datatype violation =
    StatSymlinkFailed string string
  | ExtMismatchPart string string string
  | ExtMismatchFinal string string string string
  | UnmatchedFile string
  | VersionParseError string string num_error
  | DigitsMismatch string int int
  | DuplicateUp int string
  | DuplicateDown int string
  | MissingDown int
  | MissingUp int
  | NameExtMismatch int string string
  | MissingVersion int int int
  | MissingVersions int int int int

text \<open>
  What the linter reads of the file system: the result of \<^verbatim>\<open>os.Stat\<close> on the
  configured path, the result of \<^verbatim>\<open>os.ReadDir\<close>, and for each directory entry its
  name, its type bits and, for a symbolic link, the result of \<^verbatim>\<open>os.Stat\<close> on it.
  \<open>TSpecial\<close> is an entry with a type bit other than directory and symbolic link
  (device, pipe, socket).
\<close>

datatype file_type = TDir | TRegular | TSymlink | TSpecial

datatype stat_result = StatError string | StatMode bool

record DirEntry =
  Name :: string
  Type :: file_type
  Stat :: stat_result

datatype dir_stat = StatNotExist | StatFails string | StatIsFile | StatIsDir

record dir_view =
  DirStat :: dir_stat
  ReadDir :: "string + DirEntry list"

datatype fatal =
    PathDoesNotExist string
  | FailedToStatPath string
  | PathNotDirectory string
  | FailedToReadPath string
  | NilGroup

record lint_state =
  lintErrors :: "violation list"
  versions :: "int \<rightharpoonup> VersionGroup"
  versionKeys :: "int list"

section \<open>Helper functions of the linter\<close>

definition ensureDir :: "dir_stat \<Rightarrow> string \<Rightarrow> fatal option" where
  "ensureDir st dir =
     (case st of
        StatNotExist \<Rightarrow> Some (PathDoesNotExist dir)
      | StatFails err \<Rightarrow> Some (FailedToStatPath err)
      | StatIsFile \<Rightarrow> Some (PathNotDirectory dir)
      | StatIsDir \<Rightarrow> None)"

definition finalExtension :: "string \<Rightarrow> string" where
  "finalExtension name =
     (let idx = LastIndexByte name CHR ''.''
      in if idx \<noteq> - 1 \<and> idx < int (length name) - 1 then drop (nat (idx + 1)) name
         else [])"

definition extMatches :: "string \<Rightarrow> string \<Rightarrow> string \<Rightarrow> bool" where
  "extMatches expected finalExt extPart =
     (if expected = [] then True
      else if contains_dot expected then extPart = expected
      else finalExt = expected)"

definition isCandidate ::
  "string \<Rightarrow> string \<Rightarrow> string \<Rightarrow> bool \<Rightarrow> bool \<Rightarrow> Config \<Rightarrow> bool" where
  "isCandidate name finalExt extPart migrationLike hasDirection cfg =
     (if \<not> StrictPattern cfg then False
      else if Ext cfg \<noteq> [] then
        (if extMatches (Ext cfg) finalExt extPart then True
         else if EnforceExt cfg \<and> (migrationLike \<or> hasDirection) then True
         else False)
      else if name \<noteq> [] \<and> is_digit (hd name) then True
      else if migrationLike \<or> hasDirection then True
      else False)"

definition humanExt :: "string \<Rightarrow> string" where
  "humanExt s = (if s = [] then ''<none>'' else s)"

definition formatExtMismatch :: "string \<Rightarrow> string \<Rightarrow> string \<Rightarrow> string \<Rightarrow> violation" where
  "formatExtMismatch path expected finalExt extPart =
     (if contains_dot expected then ExtMismatchPart path (humanExt extPart) expected
      else ExtMismatchFinal path (humanExt finalExt) (humanExt extPart) expected)"

definition joinPaths :: "Migration list \<Rightarrow> string" where
  "joinPaths ms = strings_Join (map mPath ms) '', ''"

section \<open>Classification of a file name\<close>

text \<open>
  The values the loop body of \<^verbatim>\<open>Lint\<close> computes from the name of an entry, each
  under the name of the source's variable: \<^verbatim>\<open>hasDirection\<close> and
  \<^verbatim>\<open>extPartOpt\<close> from the match of \<^verbatim>\<open>migrationPrefixRe\<close>,
  \<^verbatim>\<open>finalExtForMatch\<close>, \<^verbatim>\<open>isMigrationLike\<close> and \<^verbatim>\<open>matches\<close>.
\<close>

definition hasDirection :: "string \<Rightarrow> bool" where
  "hasDirection name = (FindStringSubmatch migrationPrefixRe name \<noteq> None)"

definition extPartOpt :: "string \<Rightarrow> string" where
  "extPartOpt name =
     (case FindStringSubmatch migrationPrefixRe name of None \<Rightarrow> [] | Some c \<Rightarrow> sub c 4)"

definition finalExtForMatch :: "string \<Rightarrow> string" where
  "finalExtForMatch name =
     (if hasDirection name \<and> extPartOpt name = [] then [] else finalExtension name)"

definition isMigrationLike :: "string \<Rightarrow> bool" where
  "isMigrationLike name = MatchString migrationLikeRe name"

definition matches :: "string \<Rightarrow> caps option" where
  "matches name = FindStringSubmatch migratePattern name"

section \<open>The linter\<close>

definition add_error :: "lint_state \<Rightarrow> violation \<Rightarrow> lint_state" where
  "add_error st v = st\<lparr>lintErrors := lintErrors st @ [v]\<rparr>"

text \<open>The extension rule of the loop body: what it appends to the lint errors.\<close>

definition ext_enforcement :: "Config \<Rightarrow> string \<Rightarrow> string \<Rightarrow> violation list" where
  "ext_enforcement cfg name fullPath =
     (if Ext cfg \<noteq> [] \<and> EnforceExt cfg
         \<and> \<not> extMatches (Ext cfg) (finalExtForMatch name) (extPartOpt name)
         \<and> (matches name \<noteq> None \<or> isMigrationLike name \<or> hasDirection name)
      then (if matches name \<noteq> None \<or> \<not> StrictPattern cfg
            then [formatExtMismatch fullPath (Ext cfg) (finalExtForMatch name) (extPartOpt name)]
            else [])
      else [])"

text \<open>The digit-width rule of the loop body.\<close>

definition digits_check :: "Config \<Rightarrow> string \<Rightarrow> string \<Rightarrow> violation list" where
  "digits_check cfg fullPath versionStr =
     (if Digits cfg > 0 \<and> int (length versionStr) \<noteq> Digits cfg
      then [DigitsMismatch fullPath (int (length versionStr)) (Digits cfg)]
      else [])"

text \<open>The end of the loop body: the group of the version is created when the map has
  none, and the migration joins its up-list or its down-list.\<close>

definition group_add :: "lint_state \<Rightarrow> Migration \<Rightarrow> lint_state" where
  "group_add st m =
     (let version = Version m;
          grp = (case versions st version of
                     None \<Rightarrow> \<lparr>Up = [], Down = []\<rparr>
                   | Some g \<Rightarrow> g);
          keys = (case versions st version of
                    None \<Rightarrow> versionKeys st @ [version]
                  | Some g \<Rightarrow> versionKeys st);
          grp' = (if Direction m = ''up'' then grp\<lparr>Up := Up grp @ [m]\<rparr>
                    else grp\<lparr>Down := Down grp @ [m]\<rparr>)
      in st\<lparr>versions := (versions st)(version \<mapsto> grp'), versionKeys := keys\<rparr>)"

text \<open>The loop body for an entry that passed the file-type checks.\<close>

definition lint_file :: "Config \<Rightarrow> lint_state \<Rightarrow> string \<Rightarrow> string \<Rightarrow> lint_state" where
  "lint_file cfg st name fullPath =
     (let st1 = st\<lparr>lintErrors := lintErrors st @ ext_enforcement cfg name fullPath\<rparr>
      in case matches name of
           None \<Rightarrow>
             if isCandidate name (finalExtForMatch name) (extPartOpt name)
                  (isMigrationLike name) (hasDirection name) cfg
             then add_error st1 (UnmatchedFile fullPath)
             else st1
         | Some m \<Rightarrow>
             if Ext cfg \<noteq> [] \<and> \<not> extMatches (Ext cfg) (finalExtForMatch name) (sub m 4)
             then st1
             else
               (case ParseInt (sub m 1) of
                  Inl parseErr \<Rightarrow> add_error st1 (VersionParseError fullPath (sub m 1) parseErr)
                | Inr version \<Rightarrow>
                    group_add
                      (st1\<lparr>lintErrors := lintErrors st1 @ digits_check cfg fullPath (sub m 1)\<rparr>)
                      \<lparr>mPath = fullPath, FileName = name, VersionStr = sub m 1,
                       Version = version, NamePart = sub m 2, Direction = sub m 3,
                       ExtPart = sub m 4, FinalExt = finalExtension name\<rparr>))"

text \<open>
  The whole loop body. \<open>J\<close> is \<^verbatim>\<open>filepath.Join\<close>. A directory is skipped, and so
  is any other entry that is no regular file, but for a symbolic link: a link whose target
  cannot be read is reported and skipped, and a link to a regular file is linted.
\<close>

definition lint_entry ::
  "(string \<Rightarrow> string \<Rightarrow> string) \<Rightarrow> Config \<Rightarrow> lint_state \<Rightarrow> DirEntry \<Rightarrow> lint_state" where
  "lint_entry J cfg st entry =
     (let name = Name entry; fullPath = J (Path cfg) name
      in case Type entry of
           TDir \<Rightarrow> st
         | TSpecial \<Rightarrow> st
         | TSymlink \<Rightarrow>
             (case Stat entry of
                StatError err \<Rightarrow> add_error st (StatSymlinkFailed fullPath err)
              | StatMode regular \<Rightarrow> if regular then lint_file cfg st name fullPath else st)
         | TRegular \<Rightarrow> lint_file cfg st name fullPath)"

text \<open>The checks on one version group: duplicates, pairing, names.\<close>

definition group_checks :: "Config \<Rightarrow> int \<Rightarrow> VersionGroup \<Rightarrow> violation list" where
  "group_checks cfg version grp =
     (if length (Up grp) > 1 then [DuplicateUp version (joinPaths (Up grp))] else [])
     @ (if length (Down grp) > 1 then [DuplicateDown version (joinPaths (Down grp))] else [])
     @ (if RequireDown cfg
        then (if length (Up grp) > 0 \<and> length (Down grp) = 0
              then [MissingDown version] else [])
           @ (if length (Down grp) > 0 \<and> length (Up grp) = 0
              then [MissingUp version] else [])
        else [])
     @ (if StrictNameMatch cfg \<and> length (Up grp) = 1 \<and> length (Down grp) = 1
        then (let up = Up grp ! 0; down = Down grp ! 0
              in if NamePart up \<noteq> NamePart down \<or> ExtPart up \<noteq> ExtPart down
                 then [NameExtMismatch version (FileName up) (FileName down)]
                 else [])
        else [])"

text \<open>The loop over the sorted version keys. Reading the fields of a group the map does
  not hold is a nil dereference: the run ends there.\<close>

fun check_groups ::
  "Config \<Rightarrow> (int \<rightharpoonup> VersionGroup) \<Rightarrow> int list \<Rightarrow> violation list \<Rightarrow> fatal + violation list"
where
  "check_groups cfg vs [] errs = Inr errs"
| "check_groups cfg vs (version # ks) errs =
     (case vs version of
        None \<Rightarrow> Inl NilGroup
      | Some grp \<Rightarrow> check_groups cfg vs ks (errs @ group_checks cfg version grp))"

text \<open>The gap loop, \<^verbatim>\<open>for i := 1; i < len(versionKeys); i++\<close>, in 64-bit
  arithmetic.\<close>

definition gap_step :: "int list \<Rightarrow> violation list \<Rightarrow> nat \<Rightarrow> violation list" where
  "gap_step keys errs i =
     (let prev = keys ! (i - 1); cur = keys ! i
      in if cur \<noteq> wrap64 (prev + 1)
         then (let missingStart = wrap64 (prev + 1); missingEnd = wrap64 (cur - 1)
               in if missingStart = missingEnd
                  then errs @ [MissingVersion missingStart prev cur]
                  else errs @ [MissingVersions missingStart missingEnd prev cur])
         else errs)"

definition gap_check :: "Config \<Rightarrow> int list \<Rightarrow> violation list \<Rightarrow> violation list" where
  "gap_check cfg keys errs =
     (if NoGaps cfg \<and> length keys > 0 then foldl (gap_step keys) errs [1 ..< length keys]
      else errs)"

definition init_state :: lint_state where
  "init_state = \<lparr>lintErrors = [], versions = Map.empty, versionKeys = []\<rparr>"

definition scan :: "(string \<Rightarrow> string \<Rightarrow> string) \<Rightarrow> Config \<Rightarrow> DirEntry list \<Rightarrow> lint_state" where
  "scan J cfg entries = foldl (lint_entry J cfg) init_state entries"

definition Lint ::
  "(string \<Rightarrow> string \<Rightarrow> string) \<Rightarrow> Config \<Rightarrow> dir_view \<Rightarrow> fatal + violation list" where
  "Lint J cfg fs =
     (case ensureDir (DirStat fs) (Path cfg) of
        Some err \<Rightarrow> Inl err
      | None \<Rightarrow>
          (case ReadDir fs of
             Inl err \<Rightarrow> Inl (FailedToReadPath err)
           | Inr entries \<Rightarrow>
               (let st = scan J cfg entries;
                    keys = sort (versionKeys st)
                in case check_groups cfg (versions st) keys (lintErrors st) of
                     Inl err \<Rightarrow> Inl err
                   | Inr errs \<Rightarrow> Inr (gap_check cfg keys errs))))"

section \<open>The command line\<close>

text \<open>
  \<^verbatim>\<open>parseFlags\<close> declares the flags with their defaults, lets the \<^verbatim>\<open>flag\<close>
  package fill the configuration, and then checks it. \<open>flag_defaults\<close> is the configuration
  of the declarations; \<open>parseFlags\<close> is the part after \<^verbatim>\<open>flag.Parse()\<close>, applied to the
  configuration the package has filled: it returns the exit code 2 or the configuration.
\<close>

definition flag_defaults :: Config where
  "flag_defaults =
     \<lparr>Path = [], Ext = [], EnforceExt = False, NoGaps = False, Digits = 0,
      RequireDown = False, StrictNameMatch = False, StrictPattern = False\<rparr>"

definition TrimPrefix :: "string \<Rightarrow> string \<Rightarrow> string" where
  "TrimPrefix s prefix = (if has_prefix prefix s then drop (length prefix) s else s)"

definition parseFlags :: "Config \<Rightarrow> int + Config" where
  "parseFlags parsed =
     (let cfg = (if Ext parsed \<noteq> [] then parsed\<lparr>Ext := TrimPrefix (Ext parsed) ''.''\<rparr>
                 else parsed)
      in if Path cfg = [] then Inl 2
         else if EnforceExt cfg \<and> Ext cfg = [] then Inl 2
         else if Digits cfg < 0 then Inl 2
         else Inr cfg)"

section \<open>Definitions for the statements\<close>

text \<open>The part of the canonical pattern after the name.\<close>

definition canon_tail :: re where
  "canon_tail = seqs [Lit ''.'', Cap 3 up_or_down, Lit ''.'', Cap 4 (PlusC AnyNoNL), Eol]"

text \<open>A string free of line feeds, and a string of decimal digits.\<close>

definition no_nl :: "string \<Rightarrow> bool" where
  "no_nl s = list_all (\<lambda>c. \<not> is_nl c) s"

definition all_digits :: "string \<Rightarrow> bool" where
  "all_digits s = list_all is_digit s"

text \<open>
  The shape of a canonical file name, in words: the name is the version \<open>v\<close>, an
  underscore, the name part \<open>n\<close>, a dot, the direction \<open>d\<close>, a dot and the extension
  part \<open>e\<close>; the version is a non-empty run of digits, the direction is \<^verbatim>\<open>up\<close> or
  \<^verbatim>\<open>down\<close>, and the name part and the extension part are non-empty and hold no line
  feed.
\<close>

definition canonical_split :: "string \<Rightarrow> string \<Rightarrow> string \<Rightarrow> string \<Rightarrow> string \<Rightarrow> bool" where
  "canonical_split name v n d e =
     (name = v @ ''_'' @ n @ ''.'' @ d @ ''.'' @ e
      \<and> v \<noteq> [] \<and> all_digits v
      \<and> n \<noteq> [] \<and> no_nl n
      \<and> (d = ''up'' \<or> d = ''down'')
      \<and> e \<noteq> [] \<and> no_nl e)"

text \<open>The leading digits of a file name must be followed by an underscore (\<open>head_ok\<close>);
  \<open>name_rest\<close> is what follows the underscore.\<close>

definition name_rest :: "string \<Rightarrow> string" where
  "name_rest name = drop (length (takeWhile is_digit name) + 1) name"

definition head_ok :: "string \<Rightarrow> bool" where
  "head_ok name = (takeWhile is_digit name \<noteq> []
     \<and> has_prefix ''_'' (drop (length (takeWhile is_digit name)) name))"

text \<open>
  The loop body, read as a function of the entry alone. \<open>linted\<close>: the entry passes the
  file-type checks, being a regular file or a symbolic link to one. \<open>entry_migration\<close>: the
  record the loop body puts into a version group, if it puts one. \<open>entry_errors\<close>: the
  violations the loop body appends. \<open>records\<close>: the records of a listing, in its order.
\<close>

definition linted :: "DirEntry \<Rightarrow> bool" where
  "linted e = (Type e = TRegular \<or> (Type e = TSymlink \<and> Stat e = StatMode True))"

definition file_migration :: "Config \<Rightarrow> string \<Rightarrow> string \<Rightarrow> Migration option" where
  "file_migration cfg name fullPath =
     (case matches name of
        None \<Rightarrow> None
      | Some m \<Rightarrow>
          if Ext cfg \<noteq> [] \<and> \<not> extMatches (Ext cfg) (finalExtForMatch name) (sub m 4) then None
          else (case ParseInt (sub m 1) of
                  Inl parseErr \<Rightarrow> None
                | Inr version \<Rightarrow>
                    Some \<lparr>mPath = fullPath, FileName = name, VersionStr = sub m 1,
                          Version = version, NamePart = sub m 2, Direction = sub m 3,
                          ExtPart = sub m 4, FinalExt = finalExtension name\<rparr>))"

definition file_errors :: "Config \<Rightarrow> string \<Rightarrow> string \<Rightarrow> violation list" where
  "file_errors cfg name fullPath =
     ext_enforcement cfg name fullPath @
     (case matches name of
        None \<Rightarrow>
          if isCandidate name (finalExtForMatch name) (extPartOpt name)
               (isMigrationLike name) (hasDirection name) cfg
          then [UnmatchedFile fullPath] else []
      | Some m \<Rightarrow>
          if Ext cfg \<noteq> [] \<and> \<not> extMatches (Ext cfg) (finalExtForMatch name) (sub m 4) then []
          else (case ParseInt (sub m 1) of
                  Inl parseErr \<Rightarrow> [VersionParseError fullPath (sub m 1) parseErr]
                | Inr version \<Rightarrow> digits_check cfg fullPath (sub m 1)))"

definition entry_migration ::
  "(string \<Rightarrow> string \<Rightarrow> string) \<Rightarrow> Config \<Rightarrow> DirEntry \<Rightarrow> Migration option" where
  "entry_migration J cfg e =
     (if linted e then file_migration cfg (Name e) (J (Path cfg) (Name e)) else None)"

definition entry_errors ::
  "(string \<Rightarrow> string \<Rightarrow> string) \<Rightarrow> Config \<Rightarrow> DirEntry \<Rightarrow> violation list" where
  "entry_errors J cfg e =
     (if linted e then file_errors cfg (Name e) (J (Path cfg) (Name e))
      else (case (Type e, Stat e) of
              (TSymlink, StatError err) \<Rightarrow> [StatSymlinkFailed (J (Path cfg) (Name e)) err]
            | _ \<Rightarrow> []))"

definition records ::
  "(string \<Rightarrow> string \<Rightarrow> string) \<Rightarrow> Config \<Rightarrow> DirEntry list \<Rightarrow> Migration list" where
  "records J cfg es = List.map_filter (entry_migration J cfg) es"

text \<open>The up-records and the down-records of a version among a list of records, in the
  order of the list. The loop body files a record under up when its direction is
  \<^verbatim>\<open>up\<close>, and under down otherwise.\<close>

definition ups :: "Migration list \<Rightarrow> int \<Rightarrow> Migration list" where
  "ups ms v = filter (\<lambda>m. Version m = v \<and> Direction m = ''up'') ms"

definition downs :: "Migration list \<Rightarrow> int \<Rightarrow> Migration list" where
  "downs ms v = filter (\<lambda>m. Version m = v \<and> Direction m \<noteq> ''up'') ms"

text \<open>The version group of a version, and the state of the loop after a list of records:
  the map holds exactly the groups of the versions that occur, and the keys are those
  versions, each once.\<close>

definition group_of :: "Migration list \<Rightarrow> int \<Rightarrow> VersionGroup" where
  "group_of ms v = \<lparr>Up = ups ms v, Down = downs ms v\<rparr>"

definition grouped :: "lint_state \<Rightarrow> Migration list \<Rightarrow> bool" where
  "grouped st ms =
     ((\<forall>v. versions st v = (if v \<in> Version ` set ms then Some (group_of ms v) else None))
      \<and> distinct (versionKeys st)
      \<and> set (versionKeys st) = Version ` set ms)"

text \<open>The values of an \<^verbatim>\<open>int64\<close>.\<close>

definition int64_range :: "int \<Rightarrow> bool" where
  "int64_range x = (- (2 ^ 63) \<le> x \<and> x < 2 ^ 63)"

text \<open>What the gap loop reports for a pair of neighbours, in unbounded arithmetic.\<close>

definition gap_report :: "int \<Rightarrow> int \<Rightarrow> violation list" where
  "gap_report prev cur =
     (if cur = prev + 1 then []
      else if prev + 1 = cur - 1 then [MissingVersion (prev + 1) prev cur]
      else [MissingVersions (prev + 1) (cur - 1) prev cur])"

fun gaps :: "int list \<Rightarrow> violation list" where
  "gaps (prev # cur # rest) = gap_report prev cur @ gaps (cur # rest)"
| "gaps _ = []"


text \<open>The sorted distinct versions of a list of records.\<close>

definition version_keys :: "Migration list \<Rightarrow> int list" where
  "version_keys ms = sorted_list_of_set (Version ` set ms)"

text \<open>The part of the direction-token pattern after the name.\<close>

definition prefix_tail :: re where
  "prefix_tail = seqs [Lit ''.'', Cap 3 up_or_down, Opt (Seq (Lit ''.'') (Cap 4 (StarC AnyNoNL))), Eol]"

text \<open>
  The file names the direction-token pattern accepts, in the shape of the pattern: digits, an
  underscore, a name part, a dot, the direction, and a tail \<open>t\<close> that is either empty or a dot
  followed by an extension part, which may be empty. The name part is non-empty, and neither
  the name part nor the extension part has a line feed.
\<close>

definition direction_split :: "string \<Rightarrow> string \<Rightarrow> string \<Rightarrow> string \<Rightarrow> string \<Rightarrow> bool" where
  "direction_split name v n d t =
     (name = v @ ''_'' @ n @ ''.'' @ d @ t
      \<and> v \<noteq> [] \<and> all_digits v
      \<and> n \<noteq> [] \<and> no_nl n
      \<and> (d = ''up'' \<or> d = ''down'')
      \<and> (t = [] \<or> (\<exists>e. t = ''.'' @ e \<and> no_nl e)))"

text \<open>
  The file names the loose pattern accepts: the pattern is not anchored at the end, so after
  the dot that follows the direction one character other than a line feed is enough, and
  anything may follow it.
\<close>

definition loose_split :: "string \<Rightarrow> string \<Rightarrow> string \<Rightarrow> string \<Rightarrow> string \<Rightarrow> bool" where
  "loose_split name v n d r =
     (name = v @ ''_'' @ n @ ''.'' @ d @ ''.'' @ r
      \<and> v \<noteq> [] \<and> all_digits v
      \<and> n \<noteq> [] \<and> no_nl n
      \<and> (d = ''up'' \<or> d = ''down'')
      \<and> r \<noteq> [] \<and> \<not> is_nl (hd r))"

text \<open>The part of the loose pattern after the name.\<close>

definition loose_tail :: re where
  "loose_tail = seqs [Lit ''.'', up_or_down, Lit ''.'', PlusC AnyNoNL]"

text \<open>
  Kinds of violations: those of the loop over the entries; the version of a violation of
  the loop over the version groups; those of the gap loop; and the single kinds the
  statements below speak of.
\<close>

fun per_entry_kind :: "violation \<Rightarrow> bool" where
  "per_entry_kind (StatSymlinkFailed p e) = True"
| "per_entry_kind (ExtMismatchPart p a b) = True"
| "per_entry_kind (ExtMismatchFinal p a b c) = True"
| "per_entry_kind (UnmatchedFile p) = True"
| "per_entry_kind (VersionParseError p s e) = True"
| "per_entry_kind (DigitsMismatch p l d) = True"
| "per_entry_kind v = False"

fun version_of :: "violation \<Rightarrow> int option" where
  "version_of (DuplicateUp v s) = Some v"
| "version_of (DuplicateDown v s) = Some v"
| "version_of (MissingDown v) = Some v"
| "version_of (MissingUp v) = Some v"
| "version_of (NameExtMismatch v a b) = Some v"
| "version_of x = None"

fun is_gap :: "violation \<Rightarrow> bool" where
  "is_gap (MissingVersion a p c) = True"
| "is_gap (MissingVersions a b p c) = True"
| "is_gap v = False"

fun is_ext_mismatch :: "violation \<Rightarrow> bool" where
  "is_ext_mismatch (ExtMismatchPart p a b) = True"
| "is_ext_mismatch (ExtMismatchFinal p a b c) = True"
| "is_ext_mismatch v = False"

fun is_digits_mismatch :: "violation \<Rightarrow> bool" where
  "is_digits_mismatch (DigitsMismatch p l d) = True"
| "is_digits_mismatch v = False"


fun is_dup_up :: "int \<Rightarrow> violation \<Rightarrow> bool" where
  "is_dup_up v (DuplicateUp w s) = (w = v)"
| "is_dup_up v x = False"

fun is_dup_down :: "int \<Rightarrow> violation \<Rightarrow> bool" where
  "is_dup_down v (DuplicateDown w s) = (w = v)"
| "is_dup_down v x = False"

fun is_name_ext :: "int \<Rightarrow> violation \<Rightarrow> bool" where
  "is_name_ext v (NameExtMismatch w a b) = (w = v)"
| "is_name_ext v x = False"

text \<open>The four groups of the canonical match of a file name.\<close>

definition canonical_fields :: "string \<Rightarrow> (string \<times> string \<times> string \<times> string) option" where
  "canonical_fields name =
     map_option (\<lambda>m. (sub m 1, sub m 2, sub m 3, sub m 4)) (matches name)"

text \<open>
  Concrete inputs for the runs below. \<open>slash_join\<close> is what \<^verbatim>\<open>filepath.Join\<close> returns
  for a clean directory name, such as the \<^verbatim>\<open>d\<close> of these runs, and a file name: the two
  joined by a slash. It is no model of \<^verbatim>\<open>filepath.Join\<close> on other paths, which that
  function cleans; the general statements take the join as a parameter. The other inputs
  are a configuration with the path \<^verbatim>\<open>d\<close> and every rule off, a regular file, and a
  directory of regular files.
\<close>

definition slash_join :: "string \<Rightarrow> string \<Rightarrow> string" where
  "slash_join dir name = dir @ ''/'' @ name"

definition default_config :: Config where
  "default_config =
     \<lparr>Path = ''d'', Ext = [], EnforceExt = False, NoGaps = False, Digits = 0,
      RequireDown = False, StrictNameMatch = False, StrictPattern = False\<rparr>"

definition regular_file :: "string \<Rightarrow> DirEntry" where
  "regular_file name = \<lparr>Name = name, Type = TRegular, Stat = StatMode True\<rparr>"

definition directory_of :: "string list \<Rightarrow> dir_view" where
  "directory_of names = \<lparr>DirStat = StatIsDir, ReadDir = Inr (map regular_file names)\<rparr>"

text \<open>The entries of a listing that give an up-record, or a down-record, of a version.\<close>

definition up_entry ::
  "(string \<Rightarrow> string \<Rightarrow> string) \<Rightarrow> Config \<Rightarrow> int \<Rightarrow> DirEntry \<Rightarrow> bool" where
  "up_entry J cfg v e =
     (case entry_migration J cfg e of
        None \<Rightarrow> False
      | Some m \<Rightarrow> Version m = v \<and> Direction m = ''up'')"

definition down_entry ::
  "(string \<Rightarrow> string \<Rightarrow> string) \<Rightarrow> Config \<Rightarrow> int \<Rightarrow> DirEntry \<Rightarrow> bool" where
  "down_entry J cfg v e =
     (case entry_migration J cfg e of
        None \<Rightarrow> False
      | Some m \<Rightarrow> Version m = v \<and> Direction m \<noteq> ''up'')"

text \<open>
  The extension rule in the words of its description: the extension of a file name fails
  the filter (on the values the loop body passes to \<^verbatim>\<open>extMatches\<close>); the file name is
  canonical, migration-like or has a direction token; and the entry is one the rule reports.
\<close>

definition ext_fails :: "Config \<Rightarrow> string \<Rightarrow> bool" where
  "ext_fails cfg name = (\<not> extMatches (Ext cfg) (finalExtForMatch name) (extPartOpt name))"

definition migration_shaped :: "string \<Rightarrow> bool" where
  "migration_shaped name = (matches name \<noteq> None \<or> isMigrationLike name \<or> hasDirection name)"

definition ext_reported :: "Config \<Rightarrow> DirEntry \<Rightarrow> bool" where
  "ext_reported cfg e =
     (linted e \<and> migration_shaped (Name e) \<and> ext_fails cfg (Name e)
      \<and> \<not> (matches (Name e) = None \<and> StrictPattern cfg))"

section \<open>Lemmas\<close>

subsection \<open>Matching the canonical pattern\<close>

lemma concat_map_all_Nil: "(\<And>x. x \<in> set xs \<Longrightarrow> f x = []) \<Longrightarrow> concat (map f xs) = []"
  by (induction xs) auto

lemma all_runs_Bol: "all_runs (Seq Bol r) s = run r (0, s, Map.empty)"
proof -
  have split: "[0 ..< Suc (length s)] = 0 # [1 ..< Suc (length s)]"
    by (simp add: upt_rec)
  have "concat (map (\<lambda>i. run (Seq Bol r) (i, drop i s, Map.empty)) [1 ..< Suc (length s)]) = []"
    by (rule concat_map_all_Nil) auto
  then show ?thesis
    unfolding all_runs_def split by simp
qed

lemma drop_takeWhile_head:
  "j < length (takeWhile P s) \<Longrightarrow> drop j s \<noteq> [] \<and> P (hd (drop j s))"
proof -
  assume j: "j < length (takeWhile P s)"
  have le: "length (takeWhile P s) \<le> length s" by (rule length_takeWhile_le)
  have "takeWhile P s ! j = s ! j" using j by (rule takeWhile_nth)
  moreover have "P (takeWhile P s ! j)" using j by (metis nth_mem set_takeWhileD)
  moreover have "hd (drop j s) = s ! j" using j le by (simp add: hd_drop_conv_nth)
  ultimately show ?thesis using j le by auto
qed

lemma has_prefix_Cons: "has_prefix (x # l) s = (s \<noteq> [] \<and> hd s = x \<and> has_prefix l (tl s))"
  by (cases s) (auto simp: has_prefix_def)

lemma has_prefix_Nil [simp]: "has_prefix [] s"
  by (simp add: has_prefix_def)

lemma has_prefix_append: "has_prefix l (l @ r)"
  by (simp add: has_prefix_def)

lemma has_prefix_iff: "has_prefix l s = (\<exists>r. s = l @ r)"
  unfolding has_prefix_def by (metis append_eq_conv_conj append_take_drop_id)

text \<open>A greedy class repetition followed by a literal whose first character is outside the class.\<close>

lemma run_Plus_then:
  assumes out: "\<And>j. j < length (takeWhile (in_class k) s) \<Longrightarrow> f (p + j, drop j s, c) = []"
  shows "concat (map f (run (PlusC k) (p, s, c))) =
    (if takeWhile (in_class k) s = [] then []
     else f (p + length (takeWhile (in_class k) s), drop (length (takeWhile (in_class k) s)) s, c))"
proof (cases "takeWhile (in_class k) s = []")
  case True
  then show ?thesis by simp
next
  case False
  define n where "n = length (takeWhile (in_class k) s)"
  have n: "0 < n" using False by (simp add: n_def)
  have r: "rev [Suc 0 ..< Suc n] = n # rev [Suc 0 ..< n]" using n by simp
  have e: "concat (map (\<lambda>i. f (p + i, drop i s, c)) (rev [Suc 0 ..< n])) = []"
    by (rule concat_map_all_Nil) (use out in \<open>auto simp: n_def\<close>)
  have "concat (map f (run (PlusC k) (p, s, c))) =
        concat (map (\<lambda>i. f (p + i, drop i s, c)) (rev [Suc 0 ..< Suc n]))"
    by (simp add: n_def comp_def del: upt_Suc)
  also have "\<dots> = f (p + n, drop n s, c)"
    unfolding r using e by simp
  finally show ?thesis using False by (simp add: n_def)
qed

lemma run_CapPlus_then:
  assumes out: "\<And>j. j < length (takeWhile (in_class k) s) \<Longrightarrow>
                  run r (p + j, drop j s, c(i \<mapsto> take j s)) = []"
  shows "run (Seq (Cap i (PlusC k)) r) (p, s, c) =
    (if takeWhile (in_class k) s = [] then []
     else run r (p + length (takeWhile (in_class k) s),
                 drop (length (takeWhile (in_class k) s)) s,
                 c(i \<mapsto> takeWhile (in_class k) s)))"
proof -
  define g :: "mstate \<Rightarrow> mstate" where
    "g = (\<lambda>(p', s', c'). (p', s', c'(i \<mapsto> take (p' - p) s)))"
  have g: "\<And>j. g (p + j, drop j s, c) = (p + j, drop j s, c(i \<mapsto> take j s))"
    by (simp add: g_def)
  have "run (Seq (Cap i (PlusC k)) r) (p, s, c) =
        concat (map (\<lambda>st. run r (g st)) (run (PlusC k) (p, s, c)))"
    by (simp only: run.simps(7) run.simps(9) g_def map_map comp_def)
  also have "\<dots> = (if takeWhile (in_class k) s = [] then []
     else run r (g (p + length (takeWhile (in_class k) s),
                 drop (length (takeWhile (in_class k) s)) s, c)))"
    by (rule run_Plus_then) (simp only: g out)
  finally show ?thesis
    by (simp only: g takeWhile_eq_take[symmetric])
qed

lemma run_Plus_Seq_then:
  assumes out: "\<And>j. j < length (takeWhile (in_class k) s) \<Longrightarrow>
                  run r (p + j, drop j s, c) = []"
  shows "run (Seq (PlusC k) r) (p, s, c) =
    (if takeWhile (in_class k) s = [] then []
     else run r (p + length (takeWhile (in_class k) s),
                 drop (length (takeWhile (in_class k) s)) s, c))"
proof -
  have "run (Seq (PlusC k) r) (p, s, c) = concat (map (run r) (run (PlusC k) (p, s, c)))"
    by (simp del: run.simps(4))
  also have "\<dots> = (if takeWhile (in_class k) s = [] then []
     else run r (p + length (takeWhile (in_class k) s),
                 drop (length (takeWhile (in_class k) s)) s, c))"
    by (rule run_Plus_then) (simp add: out)
  finally show ?thesis .
qed

lemma run_Lit_Seq:
  "run (Seq (Lit l) r) (p, s, c) =
     (if has_prefix l s then run r (p + length l, drop (length l) s, c) else [])"
  by simp

lemma underscore_not_digit: "\<not> is_digit CHR ''_''"
  by (simp add: is_digit_def)

lemma no_underscore_in_digits:
  assumes "j < length (takeWhile is_digit s)"
  shows "\<not> has_prefix ''_'' (drop j s)"
proof
  assume h: "has_prefix ''_'' (drop j s)"
  from drop_takeWhile_head[OF assms] have "is_digit (hd (drop j s))" by simp
  moreover from h have "hd (drop j s) = CHR ''_''" by (simp add: has_prefix_Cons)
  ultimately show False by (simp add: underscore_not_digit)
qed

lemma in_class_Digit: "in_class Digit = is_digit"
  by (rule ext) simp

lemma run_head_cap:
  "run (Seq (Cap i (PlusC Digit)) (Seq (Lit ''_'') r)) (p, s, c) =
     (if takeWhile is_digit s \<noteq> [] \<and> has_prefix ''_'' (drop (length (takeWhile is_digit s)) s)
      then run r (p + length (takeWhile is_digit s) + 1,
                  drop (length (takeWhile is_digit s) + 1) s,
                  c(i \<mapsto> takeWhile is_digit s))
      else [])"
proof -
  have out: "\<And>j. j < length (takeWhile (in_class Digit) s) \<Longrightarrow>
      run (Seq (Lit ''_'') r) (p + j, drop j s, c(i \<mapsto> take j s)) = []"
    using no_underscore_in_digits[of _ s] by (simp only: in_class_Digit run_Lit_Seq if_False)
  have "run (Seq (Cap i (PlusC Digit)) (Seq (Lit ''_'') r)) (p, s, c) =
    (if takeWhile (in_class Digit) s = [] then []
     else run (Seq (Lit ''_'') r) (p + length (takeWhile (in_class Digit) s),
                 drop (length (takeWhile (in_class Digit) s)) s,
                 c(i \<mapsto> takeWhile (in_class Digit) s)))"
    by (rule run_CapPlus_then) (rule out)
  then show ?thesis
    by (simp only: in_class_Digit run_Lit_Seq) simp
qed

lemma run_head_nocap:
  "run (Seq (PlusC Digit) (Seq (Lit ''_'') r)) (p, s, c) =
     (if takeWhile is_digit s \<noteq> [] \<and> has_prefix ''_'' (drop (length (takeWhile is_digit s)) s)
      then run r (p + length (takeWhile is_digit s) + 1,
                  drop (length (takeWhile is_digit s) + 1) s, c)
      else [])"
proof -
  have out: "\<And>j. j < length (takeWhile (in_class Digit) s) \<Longrightarrow>
      run (Seq (Lit ''_'') r) (p + j, drop j s, c) = []"
    using no_underscore_in_digits[of _ s] by (simp only: in_class_Digit run_Lit_Seq if_False)
  have "run (Seq (PlusC Digit) (Seq (Lit ''_'') r)) (p, s, c) =
    (if takeWhile (in_class Digit) s = [] then []
     else run (Seq (Lit ''_'') r) (p + length (takeWhile (in_class Digit) s),
                 drop (length (takeWhile (in_class Digit) s)) s, c))"
    by (rule run_Plus_Seq_then) (rule out)
  then show ?thesis
    by (simp only: in_class_Digit run_Lit_Seq) simp
qed

lemma up_down_excl: "has_prefix ''up'' s \<Longrightarrow> \<not> has_prefix ''down'' s"
  by (simp add: has_prefix_Cons)

lemma has_prefix_take: "has_prefix l s \<Longrightarrow> take (length l) s = l"
  by (simp add: has_prefix_def)

lemma run_dir_Seq:
  "run (Seq (Cap i up_or_down) r) (p, s, c) =
     (if has_prefix ''up'' s then run r (p + 2, drop 2 s, c(i \<mapsto> ''up''))
      else if has_prefix ''down'' s then run r (p + 4, drop 4 s, c(i \<mapsto> ''down''))
      else [])"
proof -
  have u: "has_prefix ''up'' s \<Longrightarrow> take 2 s = ''up''"
    using has_prefix_take[of "''up''" s] by (simp add: numeral_2_eq_2)
  have d: "has_prefix ''down'' s \<Longrightarrow> take 4 s = ''down''"
    using has_prefix_take[of "''down''" s] by (simp add: eval_nat_numeral)
  show ?thesis
  proof (cases "has_prefix ''up'' s")
    case True
    with up_down_excl[OF True] u show ?thesis by (simp add: up_or_down_def eval_nat_numeral)
  next
    case False
    with d show ?thesis by (simp add: up_or_down_def eval_nat_numeral)
  qed
qed

lemma run_CapPlus_Eol:
  "run (Seq (Cap i (PlusC k)) Eol) (p, e, c) =
     (if e \<noteq> [] \<and> list_all (in_class k) e then [(p + length e, [], c(i \<mapsto> e))] else [])"
proof -
  have out: "\<And>j. j < length (takeWhile (in_class k) e) \<Longrightarrow>
      run Eol (p + j, drop j e, c(i \<mapsto> take j e)) = []"
  proof -
    fix j assume "j < length (takeWhile (in_class k) e)"
    from drop_takeWhile_head[OF this] show "run Eol (p + j, drop j e, c(i \<mapsto> take j e)) = []"
      by simp
  qed
  have eq: "run (Seq (Cap i (PlusC k)) Eol) (p, e, c) =
    (if takeWhile (in_class k) e = [] then []
     else run Eol (p + length (takeWhile (in_class k) e),
                 drop (length (takeWhile (in_class k) e)) e,
                 c(i \<mapsto> takeWhile (in_class k) e)))"
    by (rule run_CapPlus_then) (rule out)
  show ?thesis
  proof (cases "list_all (in_class k) e")
    case True
    then have "takeWhile (in_class k) e = e" by (simp add: list_all_iff)
    then show ?thesis using True by (simp only: eq) simp
  next
    case False
    then have "takeWhile (in_class k) e \<noteq> e" by (simp add: list_all_iff takeWhile_eq_all_conv)
    then have "length (takeWhile (in_class k) e) < length e"
      by (metis length_takeWhile_le le_neq_implies_less takeWhile_eq_take take_all order_refl)
    then show ?thesis using False by (simp only: eq) simp
  qed
qed

lemma in_class_AnyNoNL: "list_all (in_class AnyNoNL) e = no_nl e"
  by (simp add: no_nl_def list_all_iff)

lemma has_prefix_app:
  "has_prefix (a @ b) s = (has_prefix a s \<and> has_prefix b (drop (length a) s))"
  unfolding has_prefix_iff by (metis append.assoc append_eq_conv_conj)

lemma has_prefix_up: "has_prefix ''.up.'' t =
      (has_prefix ''.'' t \<and> has_prefix ''up'' (drop 1 t) \<and> has_prefix ''.'' (drop 3 t))"
  using has_prefix_app[of "''.''" "''up.''" t] has_prefix_app[of "''up''" "''.''" "drop 1 t"]
  by (simp add: eval_nat_numeral)

lemma has_prefix_down: "has_prefix ''.down.'' t =
      (has_prefix ''.'' t \<and> has_prefix ''down'' (drop 1 t) \<and> has_prefix ''.'' (drop 5 t))"
  using has_prefix_app[of "''.''" "''down.''" t] has_prefix_app[of "''down''" "''.''" "drop 1 t"]
  by (simp add: eval_nat_numeral)

lemma has_prefix_length: "has_prefix l t \<Longrightarrow> length l \<le> length t"
  unfolding has_prefix_iff by auto

lemma run_canon_tail:
  "run canon_tail (p, t, c) =
     (if has_prefix ''.up.'' t \<and> drop 4 t \<noteq> [] \<and> no_nl (drop 4 t)
      then [(p + length t, [], c(3 \<mapsto> ''up'', 4 \<mapsto> drop 4 t))]
      else if has_prefix ''.down.'' t \<and> drop 6 t \<noteq> [] \<and> no_nl (drop 6 t)
      then [(p + length t, [], c(3 \<mapsto> ''down'', 4 \<mapsto> drop 6 t))]
      else [])"
proof -
  have l4: "has_prefix ''.up.'' t \<Longrightarrow> 4 \<le> length t"
    using has_prefix_length[of "''.up.''" t] by simp
  have l6: "has_prefix ''.down.'' t \<Longrightarrow> 6 \<le> length t"
    using has_prefix_length[of "''.down.''" t] by simp
  have excl: "has_prefix ''up'' (drop 1 t) \<Longrightarrow> \<not> has_prefix ''down'' (drop 1 t)"
    by (rule up_down_excl)
  have "run canon_tail (p, t, c) =
    (if has_prefix ''.'' t then
       (if has_prefix ''up'' (drop 1 t) then
          (if has_prefix ''.'' (drop 3 t) then
             (if drop 4 t \<noteq> [] \<and> no_nl (drop 4 t)
              then [(p + 4 + length (drop 4 t), [], c(3 \<mapsto> ''up'', 4 \<mapsto> drop 4 t))] else [])
           else [])
        else if has_prefix ''down'' (drop 1 t) then
          (if has_prefix ''.'' (drop 5 t) then
             (if drop 6 t \<noteq> [] \<and> no_nl (drop 6 t)
              then [(p + 6 + length (drop 6 t), [], c(3 \<mapsto> ''down'', 4 \<mapsto> drop 6 t))] else [])
           else [])
        else [])
     else [])"
    unfolding canon_tail_def seqs.simps
    by (simp only: run_Lit_Seq run_dir_Seq run_CapPlus_Eol in_class_AnyNoNL)
       (simp add: eval_nat_numeral)
  then show ?thesis
    using l4 l6 excl by (auto simp: has_prefix_up has_prefix_down)
qed

lemma first_of_desc:
  assumes "sorted_wrt (\<lambda>a b. a > b) js" and "j0 \<in> set js" and "g j0 \<noteq> []"
  shows "\<exists>j x rest. concat (map g js) = x # rest \<and> x \<in> set (g j) \<and> j \<in> set js \<and> j0 \<le> (j::nat)"
  using assms
proof (induction js)
  case Nil
  then show ?case by simp
next
  case (Cons a js)
  show ?case
  proof (cases "g a = []")
    case True
    with Cons.prems have "j0 \<in> set js" by auto
    with Cons obtain j x rest where
      "concat (map g js) = x # rest" "x \<in> set (g j)" "j \<in> set js" "j0 \<le> j"
      by auto
    with True show ?thesis by auto
  next
    case False
    then obtain x xs where x: "g a = x # xs" by (cases "g a") auto
    have "j0 \<le> a" using Cons.prems(1,2) by auto
    with x show ?thesis
      by (intro exI[of _ a] exI[of _ x] exI[of _ "xs @ concat (map g js)"]) simp
  qed
qed

lemma desc_cands: "sorted_wrt (\<lambda>a b. a > b) (rev [i ..< j])"
  by (simp add: sorted_wrt_rev)

lemma run_CapPlus_Seq:
  "run (Seq (Cap i (PlusC k)) r) (p, s, c) =
     concat (map (\<lambda>j. run r (p + j, drop j s, c(i \<mapsto> take j s)))
                 (rev [1 ..< Suc (length (takeWhile (in_class k) s))]))"
  by (simp add: comp_def del: upt_Suc)

lemma migratePattern_unfold:
  "migratePattern =
     Seq Bol (Seq (Cap 1 (PlusC Digit)) (Seq (Lit ''_'') (Seq (Cap 2 (PlusC AnyNoNL)) canon_tail)))"
  by (simp add: migratePattern_def canon_tail_def)

lemma all_runs_migratePattern:
  "all_runs migratePattern name =
     (if head_ok name
      then concat (map (\<lambda>j. run canon_tail
                 (length (takeWhile is_digit name) + 1 + j, drop j (name_rest name),
                  [1 \<mapsto> takeWhile is_digit name, 2 \<mapsto> take j (name_rest name)]))
              (rev [1 ..< Suc (length (takeWhile (in_class AnyNoNL) (name_rest name)))]))
      else [])"
  apply (simp only: migratePattern_unfold all_runs_Bol)
  apply (simp only: run_head_cap)
  apply (simp only: run_CapPlus_Seq head_ok_def name_rest_def)
  apply simp
  done

lemma head_ok_split:
  assumes "head_ok name"
  shows "name = takeWhile is_digit name @ ''_'' @ name_rest name"
proof -
  let ?v = "takeWhile is_digit name"
  from assms have "has_prefix ''_'' (drop (length ?v) name)" by (simp add: head_ok_def)
  then obtain r where r: "drop (length ?v) name = ''_'' @ r" by (auto simp: has_prefix_iff)
  then have "name_rest name = r"
    unfolding name_rest_def by (metis Suc_eq_plus1 append_Cons append_Nil drop_Suc drop_drop list.sel(3) tl_drop add.commute)
  moreover have "name = take (length ?v) name @ drop (length ?v) name" by simp
  ultimately show ?thesis using r by (simp add: takeWhile_eq_take[symmetric])
qed

lemma split_head:
  assumes "all_digits v" and "v \<noteq> []"
  shows "takeWhile is_digit (v @ ''_'' @ r) = v" and "head_ok (v @ ''_'' @ r)"
    and "name_rest (v @ ''_'' @ r) = r"
proof -
  have "\<forall>x\<in>set v. is_digit x" using assms(1) by (simp add: all_digits_def list_all_iff)
  then show tw: "takeWhile is_digit (v @ ''_'' @ r) = v"
    by (simp add: takeWhile_append2 underscore_not_digit)
  show "head_ok (v @ ''_'' @ r)"
    unfolding head_ok_def tw using assms(2) by (simp add: has_prefix_def)
  show "name_rest (v @ ''_'' @ r) = r"
    unfolding name_rest_def tw by simp
qed

lemma has_prefix_drop: "has_prefix l t \<Longrightarrow> l @ drop (length l) t = t"
  unfolding has_prefix_iff by auto

lemma canon_tail_result:
  assumes "x \<in> set (run canon_tail (p, t, c))"
  shows "\<exists>d e. (d = ''up'' \<or> d = ''down'') \<and> t = ''.'' @ d @ ''.'' @ e \<and> e \<noteq> [] \<and> no_nl e
           \<and> x = (p + length t, [], c(3 \<mapsto> d, 4 \<mapsto> e))"
proof (cases "has_prefix ''.up.'' t \<and> drop 4 t \<noteq> [] \<and> no_nl (drop 4 t)")
  case True
  then have "t = ''.up.'' @ drop 4 t"
    using has_prefix_drop[of "''.up.''" t] by (simp add: eval_nat_numeral)
  then have "t = ''.'' @ ''up'' @ ''.'' @ drop 4 t" by simp
  moreover have "x = (p + length t, [], c(3 \<mapsto> ''up'', 4 \<mapsto> drop 4 t))"
    using assms True by (simp add: run_canon_tail)
  ultimately show ?thesis using True by blast
next
  case False
  with assms have d: "has_prefix ''.down.'' t \<and> drop 6 t \<noteq> [] \<and> no_nl (drop 6 t)"
    by (auto simp: run_canon_tail split: if_splits)
  then have "t = ''.down.'' @ drop 6 t"
    using has_prefix_drop[of "''.down.''" t] by (simp add: eval_nat_numeral)
  then have "t = ''.'' @ ''down'' @ ''.'' @ drop 6 t" by simp
  moreover have "x = (p + length t, [], c(3 \<mapsto> ''down'', 4 \<mapsto> drop 6 t))"
    using assms False d by (auto simp: run_canon_tail split: if_splits)
  ultimately show ?thesis using d by blast
qed

lemma canon_tail_nonempty:
  assumes "d = ''up'' \<or> d = ''down''" and "e \<noteq> []" and "no_nl e"
  shows "run canon_tail (p, ''.'' @ d @ ''.'' @ e, c) \<noteq> []"
  using assms by (auto simp: run_canon_tail has_prefix_def)

lemma cand_range:
  assumes "j \<in> set (rev [1 ..< Suc (length (takeWhile (in_class AnyNoNL) s))])"
  shows "take j s \<noteq> []" and "no_nl (take j s)" and "length (take j s) = j"
proof -
  let ?w = "takeWhile (in_class AnyNoNL) s"
  from assms have j: "1 \<le> j" "j \<le> length ?w" by auto
  have le: "length ?w \<le> length s" by (rule length_takeWhile_le)
  from j le show "take j s \<noteq> []" by auto
  from j le show "length (take j s) = j" by simp
  have "take j s = take j ?w"
    using j by (metis takeWhile_eq_take take_take min.absorb1 min.commute)
  moreover have "\<forall>x\<in>set ?w. \<not> is_nl x" by (auto dest: set_takeWhileD)
  ultimately show "no_nl (take j s)"
    unfolding no_nl_def list_all_iff by (metis in_set_takeD)
qed

lemma matches_sound:
  assumes "matches name = Some m"
  shows "canonical_split name (sub m 1) (sub m 2) (sub m 3) (sub m 4)"
proof -
  let ?v = "takeWhile is_digit name"
  let ?s = "name_rest name"
  let ?js = "rev [1 ..< Suc (length (takeWhile (in_class AnyNoNL) ?s))]"
  from assms obtain p s' rest where ar: "all_runs migratePattern name = (p, s', m) # rest"
    by (auto simp: matches_def FindStringSubmatch_def split: list.splits)
  then have ok: "head_ok name"
    by (auto simp: all_runs_migratePattern split: if_splits)
  from ar ok have "(p, s', m) \<in> set (concat (map (\<lambda>j. run canon_tail
                 (length ?v + 1 + j, drop j ?s, [1 \<mapsto> ?v, 2 \<mapsto> take j ?s])) ?js))"
    by (simp only: all_runs_migratePattern if_True) simp
  then obtain j where j: "j \<in> set ?js"
    and x: "(p, s', m) \<in> set (run canon_tail
                 (length ?v + 1 + j, drop j ?s, [1 \<mapsto> ?v, 2 \<mapsto> take j ?s]))"
    by auto
  from canon_tail_result[OF x] obtain d e where
    d: "d = ''up'' \<or> d = ''down''" and t: "drop j ?s = ''.'' @ d @ ''.'' @ e"
    and e: "e \<noteq> []" "no_nl e"
    and m: "m = [1 \<mapsto> ?v, 2 \<mapsto> take j ?s, 3 \<mapsto> d, 4 \<mapsto> e]"
    by auto
  have subs: "sub m 1 = ?v" "sub m 2 = take j ?s" "sub m 3 = d" "sub m 4 = e"
    by (simp_all add: m sub_def)
  have "name = ?v @ ''_'' @ ?s" by (rule head_ok_split[OF ok])
  moreover have "?s = take j ?s @ drop j ?s" by simp
  ultimately have "name = ?v @ ''_'' @ take j ?s @ ''.'' @ d @ ''.'' @ e"
    using t by metis
  moreover have "?v \<noteq> []" using ok by (simp add: head_ok_def)
  moreover have "all_digits ?v"
    unfolding all_digits_def list_all_iff by (auto dest: set_takeWhileD)
  ultimately show ?thesis
    unfolding canonical_split_def subs using cand_range[OF j] d e by blast
qed

lemma matches_complete:
  assumes "canonical_split name v n d e"
  shows "\<exists>m. matches name = Some m \<and> length n \<le> length (sub m 2)"
proof -
  let ?s = "n @ ''.'' @ d @ ''.'' @ e"
  let ?js = "rev [1 ..< Suc (length (takeWhile (in_class AnyNoNL) ?s))]"
  let ?g = "\<lambda>j. run canon_tail (length v + 1 + j, drop j ?s, [1 \<mapsto> v, 2 \<mapsto> take j ?s])"
  from assms have name: "name = v @ ''_'' @ ?s" and v: "v \<noteq> []" "all_digits v"
    and n: "n \<noteq> []" "no_nl n" and d: "d = ''up'' \<or> d = ''down''" and e: "e \<noteq> []" "no_nl e"
    by (simp_all add: canonical_split_def)
  have hd: "takeWhile is_digit name = v" "head_ok name" "name_rest name = ?s"
    unfolding name using split_head[OF v(2) v(1)] by blast+
  have ar: "all_runs migratePattern name = concat (map ?g ?js)"
    by (simp only: all_runs_migratePattern hd if_True)
  have "\<forall>x\<in>set n. in_class AnyNoNL x" using n(2) by (simp add: no_nl_def list_all_iff)
  then have "takeWhile (in_class AnyNoNL) ?s = n @ takeWhile (in_class AnyNoNL) (''.'' @ d @ ''.'' @ e)"
    by (simp add: takeWhile_append2)
  then have "length n \<le> length (takeWhile (in_class AnyNoNL) ?s)" by simp
  with n(1) have j0: "length n \<in> set ?js" by (cases n) auto
  have "?g (length n) \<noteq> []" using canon_tail_nonempty[OF d e] by simp
  from first_of_desc[OF desc_cands j0, of ?g, OF this]
  obtain j x rest where c: "concat (map ?g ?js) = x # rest" and x: "x \<in> set (?g j)"
    and j: "j \<in> set ?js" and le: "length n \<le> j"
    by blast
  from canon_tail_result[OF x] obtain d' e' where
    "x = (length v + 1 + j + length (drop j ?s), [], [1 \<mapsto> v, 2 \<mapsto> take j ?s, 3 \<mapsto> d', 4 \<mapsto> e'])"
    by blast
  with ar c have "matches name = Some [1 \<mapsto> v, 2 \<mapsto> take j ?s, 3 \<mapsto> d', 4 \<mapsto> e']"
    by (simp add: matches_def FindStringSubmatch_def)
  moreover have "length (sub [1 \<mapsto> v, 2 \<mapsto> take j ?s, 3 \<mapsto> d', 4 \<mapsto> e'] 2) = j"
    using cand_range(3)[OF j] by (simp add: sub_def)
  ultimately show ?thesis using le by auto
qed

subsection \<open>The loop body, entry by entry\<close>

lemma group_add_errors:
  "group_add (st\<lparr>lintErrors := x\<rparr>) m = (group_add st m)\<lparr>lintErrors := x\<rparr>"
  by (simp add: group_add_def Let_def split: option.splits)

lemma group_add_lintErrors [simp]: "lintErrors (group_add st m) = lintErrors st"
  by (simp add: group_add_def Let_def)

lemma lint_file_decomp:
  "lint_file cfg st name fullPath =
     (case file_migration cfg name fullPath of
        None \<Rightarrow> st\<lparr>lintErrors := lintErrors st @ file_errors cfg name fullPath\<rparr>
      | Some mg \<Rightarrow> group_add (st\<lparr>lintErrors := lintErrors st @ file_errors cfg name fullPath\<rparr>) mg)"
  by (simp add: lint_file_def file_migration_def file_errors_def add_error_def Let_def
           split: option.splits sum.splits)

lemma lint_entry_decomp:
  "lint_entry J cfg st e =
     (case entry_migration J cfg e of
        None \<Rightarrow> st\<lparr>lintErrors := lintErrors st @ entry_errors J cfg e\<rparr>
      | Some mg \<Rightarrow> group_add (st\<lparr>lintErrors := lintErrors st @ entry_errors J cfg e\<rparr>) mg)"
  by (cases "Type e"; cases "Stat e")
     (auto simp: lint_entry_def entry_migration_def entry_errors_def linted_def
        lint_file_decomp add_error_def Let_def split: option.splits)

lemma foldl_group_add_errors:
  "foldl group_add (st\<lparr>lintErrors := x\<rparr>) ms = (foldl group_add st ms)\<lparr>lintErrors := x\<rparr>"
  by (induction ms arbitrary: st) (simp_all add: group_add_errors)

lemma foldl_group_add_lintErrors [simp]: "lintErrors (foldl group_add st ms) = lintErrors st"
  by (induction ms arbitrary: st) simp_all

lemma foldl_lint_entry:
  "foldl (lint_entry J cfg) st es =
     (foldl group_add st (records J cfg es))\<lparr>lintErrors := lintErrors st @ concat (map (entry_errors J cfg) es)\<rparr>"
proof (induction es arbitrary: st)
  case Nil
  then show ?case by (simp add: records_def map_filter_simps)
next
  case (Cons e es)
  have IH: "\<And>st. foldl (lint_entry J cfg) st es =
     (foldl group_add st (records J cfg es))\<lparr>lintErrors := lintErrors st @ concat (map (entry_errors J cfg) es)\<rparr>"
    by (rule Cons.IH)
  show ?case
  proof (cases "entry_migration J cfg e")
    case None
    then have "lint_entry J cfg st e = st\<lparr>lintErrors := lintErrors st @ entry_errors J cfg e\<rparr>"
      by (simp add: lint_entry_decomp)
    then have "foldl (lint_entry J cfg) st (e # es) =
        foldl (lint_entry J cfg) (st\<lparr>lintErrors := lintErrors st @ entry_errors J cfg e\<rparr>) es"
      by simp
    also have "\<dots> = (foldl group_add st (records J cfg (e # es)))
        \<lparr>lintErrors := lintErrors st @ concat (map (entry_errors J cfg) (e # es))\<rparr>"
      unfolding IH using None
      by (simp add: records_def map_filter_simps foldl_group_add_errors)
    finally show ?thesis .
  next
    case (Some mg)
    then have "lint_entry J cfg st e =
        group_add (st\<lparr>lintErrors := lintErrors st @ entry_errors J cfg e\<rparr>) mg"
      by (simp add: lint_entry_decomp)
    then have "foldl (lint_entry J cfg) st (e # es) =
        foldl (lint_entry J cfg)
          (group_add (st\<lparr>lintErrors := lintErrors st @ entry_errors J cfg e\<rparr>) mg) es"
      by simp
    also have "\<dots> = (foldl group_add st (records J cfg (e # es)))
        \<lparr>lintErrors := lintErrors st @ concat (map (entry_errors J cfg) (e # es))\<rparr>"
      unfolding IH using Some
      by (simp add: records_def map_filter_simps foldl_group_add_errors group_add_errors)
    finally show ?thesis .
  qed
qed

subsection \<open>The version groups after the loop\<close>

lemma grouped_init: "grouped init_state []"
  by (simp add: grouped_def init_state_def)

lemma ups_snoc:
  "ups (ms @ [m]) v = ups ms v @ (if Version m = v \<and> Direction m = ''up'' then [m] else [])"
  by (simp add: ups_def)

lemma downs_snoc:
  "downs (ms @ [m]) v = downs ms v @ (if Version m = v \<and> Direction m \<noteq> ''up'' then [m] else [])"
  by (simp add: downs_def)

lemma ups_fresh: "v \<notin> Version ` set ms \<Longrightarrow> ups ms v = []"
  by (auto simp: ups_def filter_empty_conv)

lemma downs_fresh: "v \<notin> Version ` set ms \<Longrightarrow> downs ms v = []"
  by (auto simp: downs_def filter_empty_conv)

lemma grouped_step:
  assumes "grouped st ms"
  shows "grouped (group_add st m) (ms @ [m])"
proof (cases "Version m \<in> Version ` set ms")
  case True
  with assms have old: "versions st (Version m) = Some (group_of ms (Version m))"
    by (simp add: grouped_def)
  have "\<forall>v. versions (group_add st m) v =
      (if v \<in> Version ` set (ms @ [m]) then Some (group_of (ms @ [m]) v) else None)"
    using assms True old
    by (auto simp: group_add_def Let_def grouped_def group_of_def ups_snoc downs_snoc)
  moreover have "versionKeys (group_add st m) = versionKeys st"
    using old by (simp add: group_add_def Let_def)
  ultimately show ?thesis using assms True by (auto simp: grouped_def)
next
  case False
  with assms have old: "versions st (Version m) = None"
    by (simp add: grouped_def)
  have "\<forall>v. versions (group_add st m) v =
      (if v \<in> Version ` set (ms @ [m]) then Some (group_of (ms @ [m]) v) else None)"
    using assms False old
    by (auto simp: group_add_def Let_def grouped_def group_of_def ups_snoc downs_snoc
          ups_fresh downs_fresh)
  moreover have "versionKeys (group_add st m) = versionKeys st @ [Version m]"
    using old by (simp add: group_add_def Let_def)
  ultimately show ?thesis using assms False by (auto simp: grouped_def)
qed

lemma grouped_foldl: "grouped (foldl group_add init_state ms) ms"
proof (induction ms rule: rev_induct)
  case Nil
  then show ?case by (simp add: grouped_init)
next
  case (snoc m ms)
  then show ?case by (simp add: grouped_step)
qed

lemma check_groups_ok:
  assumes "\<And>k. k \<in> set ks \<Longrightarrow> vs k = Some (g k)"
  shows "check_groups cfg vs ks errs = Inr (errs @ concat (map (\<lambda>v. group_checks cfg v (g v)) ks))"
  using assms by (induction ks arbitrary: errs) simp_all

lemma sort_distinct_keys:
  assumes "distinct ks"
  shows "sort ks = sorted_list_of_set (set ks)"
  using assms by (simp add: sorted_list_of_set_sort_remdups distinct_remdups_id)

subsection \<open>The gap loop\<close>

lemma wrap64_id: "int64_range x \<Longrightarrow> wrap64 x = x"
  by (simp add: wrap64_def int64_range_def)

lemma gap_step_report:
  assumes "int64_range (ks ! (i - 1))" "int64_range (ks ! i)" "ks ! (i - 1) < ks ! i"
  shows "gap_step ks errs i = errs @ gap_report (ks ! (i - 1)) (ks ! i)"
proof -
  have "int64_range (ks ! (i - 1) + 1)" "int64_range (ks ! i - 1)"
    using assms by (auto simp: int64_range_def)
  then show ?thesis
    by (simp add: gap_step_def gap_report_def Let_def wrap64_id)
qed

lemma gap_loop:
  assumes "sorted ks" "distinct ks" "\<forall>k\<in>set ks. int64_range k"
  shows "1 \<le> i \<Longrightarrow> i \<le> length ks \<Longrightarrow>
     foldl (gap_step ks) errs [i ..< length ks] = errs @ gaps (drop (i - 1) ks)"
proof (induction "length ks - i" arbitrary: i errs)
  case 0
  then have i: "i = length ks" by simp
  with 0 have "drop (i - 1) ks = [last ks]"
    by (metis One_nat_def Suc_pred' append_butlast_last_id append_eq_conv_conj length_butlast
        length_greater_0_conv less_eq_Suc_le list.size(3) not_one_le_zero)
  with i show ?case by simp
next
  case (Suc n)
  then have lt: "i < length ks" by simp
  from Suc.prems obtain j where j: "i = Suc j" by (cases i) auto
  have lts: "ks ! j < ks ! i"
    using assms(1,2) lt j
    by (metis Suc_lessD lessI less_le nth_eq_iff_index_eq order_less_imp_le sorted_nth_mono)
  have rng: "int64_range (ks ! j)" "int64_range (ks ! i)"
    using assms(3) lt j by auto
  have step: "gap_step ks errs i = errs @ gap_report (ks ! j) (ks ! i)"
    using gap_step_report[of ks i errs] rng lts j by simp
  have d1: "drop j ks = ks ! j # drop i ks"
    using lt j by (metis Cons_nth_drop_Suc Suc_lessD)
  have d2: "drop i ks = ks ! i # drop (Suc i) ks"
    using lt by (metis Cons_nth_drop_Suc)
  have "gaps (drop j ks) = gaps (ks ! j # ks ! i # drop (Suc i) ks)"
    by (simp only: d1 d2)
  also have "\<dots> = gap_report (ks ! j) (ks ! i) @ gaps (ks ! i # drop (Suc i) ks)"
    by simp
  also have "\<dots> = gap_report (ks ! j) (ks ! i) @ gaps (drop i ks)"
    by (simp only: d2[symmetric])
  finally have g: "gaps (drop (i - 1) ks) = gap_report (ks ! j) (ks ! i) @ gaps (drop i ks)"
    by (simp add: j)
  have "[i ..< length ks] = i # [Suc i ..< length ks]"
    using lt by (simp add: upt_conv_Cons)
  then have "foldl (gap_step ks) errs [i ..< length ks] =
      foldl (gap_step ks) (errs @ gap_report (ks ! j) (ks ! i)) [Suc i ..< length ks]"
    by (simp add: step)
  also have "\<dots> = (errs @ gap_report (ks ! j) (ks ! i)) @ gaps (drop (Suc i - 1) ks)"
    using Suc.hyps(2) lt by (intro Suc.hyps(1)) auto
  finally show ?case using g by simp
qed

lemma gap_check_gaps:
  assumes "sorted ks" "distinct ks" "\<forall>k\<in>set ks. int64_range k"
  shows "gap_check cfg ks errs = errs @ (if NoGaps cfg then gaps ks else [])"
proof (cases "NoGaps cfg \<and> length ks > 0")
  case True
  then have "foldl (gap_step ks) errs [1 ..< length ks] = errs @ gaps (drop (1 - 1) ks)"
    by (intro gap_loop[OF assms]) (auto simp: Suc_le_eq)
  with True show ?thesis by (simp add: gap_check_def)
next
  case False
  then show ?thesis by (auto simp: gap_check_def)
qed

subsection \<open>Parsing a version\<close>

lemma digit_val_range: "is_digit c \<Longrightarrow> 0 \<le> digit_val c \<and> digit_val c \<le> 9"
proof -
  assume "is_digit c"
  then have "48 \<le> int (of_char c) \<and> int (of_char c) \<le> 57"
    by (simp add: is_digit_def)
  then show ?thesis
    by (simp add: digit_val_def of_nat_of_char)
qed







lemma parseUint_loop_nonneg:
  "parseUint_loop n s = Inr r \<Longrightarrow> 0 \<le> n \<Longrightarrow> 0 \<le> r"
proof (induction s arbitrary: n)
  case Nil
  then show ?case by simp
next
  case (Cons c cs)
  from Cons.prems(1) have c: "is_digit c" by (auto split: if_splits)
  then have "0 \<le> n * 10 + digit_val c" using Cons.prems(2) digit_val_range by simp
  moreover from Cons.prems(1) c have "parseUint_loop (n * 10 + digit_val c) cs = Inr r"
    by (auto split: if_splits)
  ultimately show ?case by (rule Cons.IH[rotated])
qed

lemma ParseInt_range: "ParseInt s = Inr v \<Longrightarrow> int64_range v"
proof -
  assume a: "ParseInt s = Inr v"
  then have ne: "s \<noteq> []" by (auto simp: ParseInt_def)
  let ?ds = "if hd s = CHR ''+'' \<or> hd s = CHR ''-'' then tl s else s"
  from a ne obtain un where un: "ParseUint ?ds = Inr un"
    by (auto simp: ParseInt_def Let_def split: sum.splits num_error.splits)
  then have "0 \<le> un"
    using parseUint_loop_nonneg[of 0 ?ds un] by (auto simp: ParseUint_def split: if_splits)
  with a ne un show ?thesis
    by (auto simp: ParseInt_def Let_def int64_range_def split: if_splits)
qed

subsection \<open>The whole run\<close>

lemma file_migration_range:
  "file_migration cfg name fullPath = Some mg \<Longrightarrow> int64_range (Version mg)"
  by (auto simp: file_migration_def split: option.splits if_splits sum.splits
        dest: ParseInt_range)

lemma records_range:
  assumes "mg \<in> set (records J cfg es)"
  shows "int64_range (Version mg)"
proof -
  from assms obtain e where "entry_migration J cfg e = Some mg"
    by (auto simp: records_def map_filter_def)
  then show ?thesis
    by (auto simp: entry_migration_def split: if_splits dest: file_migration_range)
qed

lemma scan_decomp:
  "scan J cfg es =
     (foldl group_add init_state (records J cfg es))\<lparr>lintErrors := concat (map (entry_errors J cfg) es)\<rparr>"
  unfolding scan_def foldl_lint_entry by (simp add: init_state_def)

lemma version_keys_props:
  "sorted (version_keys ms)" "distinct (version_keys ms)"
  "set (version_keys ms) = Version ` set ms"
  by (simp_all add: version_keys_def)

lemma Lint_char:
  assumes "DirStat fs = StatIsDir" and "ReadDir fs = Inr es"
  shows "Lint J cfg fs =
     Inr (concat (map (entry_errors J cfg) es)
          @ concat (map (\<lambda>v. group_checks cfg v (group_of (records J cfg es) v))
                        (version_keys (records J cfg es)))
          @ (if NoGaps cfg then gaps (version_keys (records J cfg es)) else []))"
proof -
  let ?ms = "records J cfg es"
  let ?st = "foldl group_add init_state ?ms"
  have g: "grouped ?st ?ms" by (rule grouped_foldl)
  have keys: "sort (versionKeys (scan J cfg es)) = version_keys ?ms"
    using g by (simp add: scan_decomp grouped_def sort_distinct_keys version_keys_def)
  have vs: "versions (scan J cfg es) = versions ?st" by (simp add: scan_decomp)
  have errs: "lintErrors (scan J cfg es) = concat (map (entry_errors J cfg) es)"
    by (simp add: scan_decomp)
  have look: "\<And>k. k \<in> set (version_keys ?ms) \<Longrightarrow> versions ?st k = Some (group_of ?ms k)"
    using g by (simp add: grouped_def version_keys_props)
  have rng: "\<forall>k\<in>set (version_keys ?ms). int64_range k"
    using records_range[of _ J cfg es] by (auto simp: version_keys_props)
  have cg: "check_groups cfg (versions ?st) (version_keys ?ms) (concat (map (entry_errors J cfg) es)) =
      Inr (concat (map (entry_errors J cfg) es)
           @ concat (map (\<lambda>v. group_checks cfg v (group_of ?ms v)) (version_keys ?ms)))"
    by (rule check_groups_ok) (rule look)
  show ?thesis
    by (simp add: Lint_def ensureDir_def assms Let_def keys vs errs cg
          gap_check_gaps[OF version_keys_props(1,2) rng])
qed

subsection \<open>The direction-token pattern\<close>

lemma migrationPrefixRe_unfold:
  "migrationPrefixRe =
     Seq Bol (Seq (Cap 1 (PlusC Digit)) (Seq (Lit ''_'') (Seq (Cap 2 (PlusC AnyNoNL)) prefix_tail)))"
  by (simp add: migrationPrefixRe_def prefix_tail_def)

lemma all_runs_migrationPrefixRe:
  "all_runs migrationPrefixRe name =
     (if head_ok name
      then concat (map (\<lambda>j. run prefix_tail
                 (length (takeWhile is_digit name) + 1 + j, drop j (name_rest name),
                  [1 \<mapsto> takeWhile is_digit name, 2 \<mapsto> take j (name_rest name)]))
              (rev [1 ..< Suc (length (takeWhile (in_class AnyNoNL) (name_rest name)))]))
      else [])"
  apply (simp only: migrationPrefixRe_unfold all_runs_Bol)
  apply (simp only: run_head_cap)
  apply (simp only: run_CapPlus_Seq head_ok_def name_rest_def)
  apply simp
  done

lemma run_CapStar:
  "run (Cap i (StarC k)) (p, s, c) =
     map (\<lambda>j. (p + j, drop j s, c(i \<mapsto> take j s)))
         (rev [0 ..< Suc (length (takeWhile (in_class k) s))])"
  by (simp add: comp_def del: upt_Suc)

lemma run_CapStar_Eol_mem:
  assumes "x \<in> set (concat (map (run Eol) (run (Cap i (StarC k)) (p, e, c))))"
  shows "list_all (in_class k) e \<and> x = (p + length e, [], c(i \<mapsto> e))"
proof -
  let ?w = "takeWhile (in_class k) e"
  from assms obtain j where j: "j \<le> length ?w" and x: "x \<in> set (run Eol (p + j, drop j e, c(i \<mapsto> take j e)))"
    unfolding run_CapStar by (auto simp del: upt_Suc)
  have le: "length ?w \<le> length e" by (rule length_takeWhile_le)
  from x have d: "drop j e = []" and xe: "x = (p + j, [], c(i \<mapsto> take j e))"
    by (auto split: if_splits)
  from d j le have je: "j = length e" by simp
  with j le have "length ?w = length e" by simp
  then have "?w = e" by (metis takeWhile_eq_take take_all order_refl)
  then have "list_all (in_class k) e" by (simp add: list_all_iff takeWhile_eq_all_conv)
  with xe je show ?thesis by simp
qed

lemma run_CapStar_Eol_full:
  assumes "list_all (in_class k) e"
  shows "concat (map (run Eol) (run (Cap i (StarC k)) (p, e, c))) \<noteq> []"
proof -
  from assms have w: "takeWhile (in_class k) e = e" by (simp add: list_all_iff)
  have m: "length e \<in> set (rev [0 ..< Suc (length e)])" by simp
  have "run Eol (p + length e, drop (length e) e, c(i \<mapsto> take (length e) e)) \<noteq> []" by simp
  then have "\<exists>j\<in>set (rev [0 ..< Suc (length e)]).
      run Eol (p + j, drop j e, c(i \<mapsto> take j e)) \<noteq> []"
    using m by blast
  then show ?thesis
    unfolding run_CapStar w by (simp add: comp_def del: upt_Suc run.simps)
qed

lemma run_opt_ext_Eol:
  "run (Seq (Opt (Seq (Lit ''.'') (Cap i (StarC k)))) Eol) (p, t, c) =
     (if has_prefix ''.'' t
      then concat (map (run Eol) (run (Cap i (StarC k)) (p + 1, drop 1 t, c)))
      else [])
     @ (if t = [] then [(p, t, c)] else [])"
proof -
  have "run (Seq (Opt (Seq (Lit ''.'') (Cap i (StarC k)))) Eol) (p, t, c) =
      concat (map (run Eol) (run (Seq (Lit ''.'') (Cap i (StarC k))) (p, t, c))) @ run Eol (p, t, c)"
    by (simp only: run.simps(6) run.simps(7) map_append concat_append list.map concat.simps append_Nil2)
  also have "run (Seq (Lit ''.'') (Cap i (StarC k))) (p, t, c) =
      (if has_prefix ''.'' t then run (Cap i (StarC k)) (p + 1, drop 1 t, c) else [])"
    by (simp only: run_Lit_Seq) simp
  finally show ?thesis
    by (simp only: run.simps(2)) (simp del: run.simps)
qed

lemma opt_ext_result:
  assumes "x \<in> set (run (Seq (Opt (Seq (Lit ''.'') (Cap 4 (StarC AnyNoNL)))) Eol) (q, r, c))"
  shows "(r = [] \<and> x = (q, [], c))
       \<or> (\<exists>e. r = ''.'' @ e \<and> no_nl e \<and> x = (q + length r, [], c(4 \<mapsto> e)))"
proof -
  let ?A = "if has_prefix ''.'' r
      then concat (map (run Eol) (run (Cap 4 (StarC AnyNoNL)) (q + 1, drop 1 r, c)))
      else []"
  let ?B = "if r = [] then [(q, r, c)] else []"
  from assms have "x \<in> set (?A @ ?B)" by (simp only: run_opt_ext_Eol)
  then have "x \<in> set ?A \<or> x \<in> set ?B" by (simp only: set_append Un_iff)
  then show ?thesis
  proof
    assume xa: "x \<in> set ?A"
    then have pre: "has_prefix ''.'' r" by (cases "has_prefix ''.'' r") simp_all
    then obtain e where r: "r = ''.'' @ e" by (auto simp: has_prefix_iff)
    from xa pre have "x \<in> set (concat (map (run Eol) (run (Cap 4 (StarC AnyNoNL)) (q + 1, drop 1 r, c))))"
      by (simp only: if_True)
    then have "x \<in> set (concat (map (run Eol) (run (Cap 4 (StarC AnyNoNL)) (q + 1, e, c))))"
      by (simp add: r del: run.simps)
    from run_CapStar_Eol_mem[OF this] have e: "no_nl e"
      and xe: "x = (q + 1 + length e, [], c(4 \<mapsto> e))"
      by (simp_all only: in_class_AnyNoNL)
    from xe have "x = (q + length r, [], c(4 \<mapsto> e))" by (simp add: r)
    with r e show ?thesis by blast
  next
    assume xb: "x \<in> set ?B"
    then have "r = []" by (cases "r = []") simp_all
    with xb show ?thesis by simp
  qed
qed

lemma prefix_tail_unfold:
  "run prefix_tail (p, t, c) =
    (if has_prefix ''.'' t then
       (if has_prefix ''up'' (drop 1 t)
        then run (Seq (Opt (Seq (Lit ''.'') (Cap 4 (StarC AnyNoNL)))) Eol)
               (p + 3, drop 3 t, c(3 \<mapsto> ''up''))
        else if has_prefix ''down'' (drop 1 t)
        then run (Seq (Opt (Seq (Lit ''.'') (Cap 4 (StarC AnyNoNL)))) Eol)
               (p + 5, drop 5 t, c(3 \<mapsto> ''down''))
        else [])
     else [])"
  unfolding prefix_tail_def seqs.simps
  by (simp only: run_Lit_Seq run_dir_Seq) (simp add: eval_nat_numeral del: run.simps)

lemma prefix_tail_dir:
  assumes x: "x \<in> set (run (Seq (Opt (Seq (Lit ''.'') (Cap 4 (StarC AnyNoNL)))) Eol)
               (p + length (''.'' @ d), r, c(3 \<mapsto> d)))"
  shows "(''.'' @ d @ r = ''.'' @ d \<and> x = (p + length (''.'' @ d @ r), [], c(3 \<mapsto> d)))
            \<or> (\<exists>e. ''.'' @ d @ r = ''.'' @ d @ ''.'' @ e \<and> no_nl e
                  \<and> x = (p + length (''.'' @ d @ r), [], c(3 \<mapsto> d, 4 \<mapsto> e)))"
  using opt_ext_result[OF x] by (auto simp: add.assoc)

lemma prefix_tail_result:
  assumes "x \<in> set (run prefix_tail (p, t, c))"
  shows "\<exists>d. (d = ''up'' \<or> d = ''down'') \<and>
           ((t = ''.'' @ d \<and> x = (p + length t, [], c(3 \<mapsto> d)))
            \<or> (\<exists>e. t = ''.'' @ d @ ''.'' @ e \<and> no_nl e
                  \<and> x = (p + length t, [], c(3 \<mapsto> d, 4 \<mapsto> e))))"
proof -
  from assms have dot: "has_prefix ''.'' t"
    unfolding prefix_tail_unfold by (simp split: if_splits del: run.simps)
  show ?thesis
  proof (cases "has_prefix ''up'' (drop 1 t)")
    case True
    with dot assms have x: "x \<in> set (run (Seq (Opt (Seq (Lit ''.'') (Cap 4 (StarC AnyNoNL)))) Eol)
               (p + 3, drop 3 t, c(3 \<mapsto> ''up'')))"
      unfolding prefix_tail_unfold by (simp del: run.simps)
    have "has_prefix (''.'' @ ''up'') t"
      using dot True by (simp only: has_prefix_app) simp
    then obtain r where t: "t = ''.'' @ ''up'' @ r" by (auto simp: has_prefix_iff)
    from x have "x \<in> set (run (Seq (Opt (Seq (Lit ''.'') (Cap 4 (StarC AnyNoNL)))) Eol)
               (p + length (''.'' @ ''up''), r, c(3 \<mapsto> ''up'')))"
      by (simp add: t eval_nat_numeral del: run.simps)
    from prefix_tail_dir[OF this] show ?thesis
      unfolding t by blast
  next
    case False
    with dot assms have dn: "has_prefix ''down'' (drop 1 t)"
      unfolding prefix_tail_unfold by (simp split: if_splits del: run.simps)
    with False dot assms have x: "x \<in> set (run (Seq (Opt (Seq (Lit ''.'') (Cap 4 (StarC AnyNoNL)))) Eol)
               (p + 5, drop 5 t, c(3 \<mapsto> ''down'')))"
      unfolding prefix_tail_unfold by (simp del: run.simps)
    have "has_prefix (''.'' @ ''down'') t"
      using dot dn by (simp only: has_prefix_app) simp
    then obtain r where t: "t = ''.'' @ ''down'' @ r" by (auto simp: has_prefix_iff)
    from x have "x \<in> set (run (Seq (Opt (Seq (Lit ''.'') (Cap 4 (StarC AnyNoNL)))) Eol)
               (p + length (''.'' @ ''down''), r, c(3 \<mapsto> ''down'')))"
      by (simp add: t eval_nat_numeral del: run.simps)
    from prefix_tail_dir[OF this] show ?thesis
      unfolding t by blast
  qed
qed

lemma prefix_tail_nonempty:
  assumes "d = ''up'' \<or> d = ''down''" and "no_nl e"
  shows "run prefix_tail (p, ''.'' @ d @ ''.'' @ e, c) \<noteq> []"
proof -
  have e: "list_all (in_class AnyNoNL) e" using assms(2) by (simp add: in_class_AnyNoNL)
  have star: "\<And>p c. concat (map (run Eol) (run (Cap 4 (StarC AnyNoNL)) (p, e, c))) \<noteq> []"
    by (rule run_CapStar_Eol_full[OF e])
  from assms(1) show ?thesis
  proof
    assume d: "d = ''up''"
    show ?thesis
      unfolding d prefix_tail_unfold run_opt_ext_Eol
      using star by (simp add: has_prefix_def del: run.simps)
  next
    assume d: "d = ''down''"
    show ?thesis
      unfolding d prefix_tail_unfold run_opt_ext_Eol
      using star by (simp add: has_prefix_def del: run.simps)
  qed
qed

subsection \<open>Direction tokens of canonical names\<close>

lemma hasDirection_head: "hasDirection name \<Longrightarrow> head_ok name"
  by (auto simp: hasDirection_def FindStringSubmatch_def all_runs_migrationPrefixRe
        split: if_splits list.splits)

lemma migrationLikeRe_unfold:
  "migrationLikeRe =
     Seq Bol (Seq (PlusC Digit) (Seq (Lit ''_'')
       (seqs [PlusC AnyNoNL, Lit ''.'', up_or_down, Lit ''.'', PlusC AnyNoNL])))"
  by (simp add: migrationLikeRe_def)

lemma isMigrationLike_head: "isMigrationLike name \<Longrightarrow> head_ok name"
proof -
  assume "isMigrationLike name"
  then have "all_runs migrationLikeRe name \<noteq> []"
    by (simp add: isMigrationLike_def MatchString_def)
  then show ?thesis
    by (simp add: migrationLikeRe_unfold all_runs_Bol run_head_nocap head_ok_def
          del: run.simps seqs.simps split: if_splits)
qed

lemma head_ok_shape:
  assumes "head_ok name"
  shows "\<exists>v r. name = v @ ''_'' @ r \<and> v \<noteq> [] \<and> all_digits v"
proof -
  have "all_digits (takeWhile is_digit name)"
    unfolding all_digits_def list_all_iff by (auto dest: set_takeWhileD)
  moreover have "takeWhile is_digit name \<noteq> []" using assms by (simp add: head_ok_def)
  ultimately show ?thesis using head_ok_split[OF assms] by blast
qed

lemma dir_tail_inject:
  assumes "''.'' @ d @ ''.'' @ e = ''.'' @ d' @ ''.'' @ e'"
    and "d = ''up'' \<or> d = ''down''" and "d' = ''up'' \<or> d' = ''down''"
  shows "e = e'"
  using assms by auto

lemma canonical_has_direction:
  assumes "matches name = Some m"
  shows "hasDirection name \<and> (extPartOpt name = sub m 4 \<or> extPartOpt name = [])"
proof -
  let ?v = "sub m 1" and ?n = "sub m 2" and ?d = "sub m 3" and ?e = "sub m 4"
  let ?s = "?n @ ''.'' @ ?d @ ''.'' @ ?e"
  let ?js = "rev [1 ..< Suc (length (takeWhile (in_class AnyNoNL) ?s))]"
  let ?g = "\<lambda>j. run prefix_tail (length ?v + 1 + j, drop j ?s, [1 \<mapsto> ?v, 2 \<mapsto> take j ?s])"
  have split: "canonical_split name ?v ?n ?d ?e" by (rule matches_sound[OF assms])
  then have name: "name = ?v @ ''_'' @ ?s" and v: "?v \<noteq> []" "all_digits ?v"
    and n: "?n \<noteq> []" "no_nl ?n" and d: "?d = ''up'' \<or> ?d = ''down''"
    and e: "?e \<noteq> []" "no_nl ?e"
    by (simp_all add: canonical_split_def)
  have hd: "takeWhile is_digit name = ?v" "head_ok name" "name_rest name = ?s"
    using split_head[OF v(2) v(1), of ?s] name by simp_all
  have ar: "all_runs migrationPrefixRe name = concat (map ?g ?js)"
    by (simp only: all_runs_migrationPrefixRe hd if_True)
  have "\<forall>x\<in>set ?n. in_class AnyNoNL x" using n(2) by (simp add: no_nl_def list_all_iff)
  then have "takeWhile (in_class AnyNoNL) ?s = ?n @ takeWhile (in_class AnyNoNL) (''.'' @ ?d @ ''.'' @ ?e)"
    by (simp add: takeWhile_append2)
  then have "length ?n \<le> length (takeWhile (in_class AnyNoNL) ?s)" by simp
  with n(1) have j0: "length ?n \<in> set ?js" by (cases ?n) auto
  have "?g (length ?n) \<noteq> []" using prefix_tail_nonempty[OF d e(2)] by simp
  from first_of_desc[OF desc_cands j0, of ?g, OF this]
  obtain j x rest where c: "concat (map ?g ?js) = x # rest" and x: "x \<in> set (?g j)"
    and j: "j \<in> set ?js" and le: "length ?n \<le> j"
    by blast
  obtain xp xs xc where xt: "x = (xp, xs, xc)" by (cases x) auto
  from ar c xt have fs: "FindStringSubmatch migrationPrefixRe name = Some xc"
    by (simp add: FindStringSubmatch_def)
  then have hasdir: "hasDirection name" by (simp add: hasDirection_def)
  from fs have ext: "extPartOpt name = sub xc 4" by (simp add: extPartOpt_def)
  from prefix_tail_result[OF x] obtain d' where d': "d' = ''up'' \<or> d' = ''down''"
    and alt: "(drop j ?s = ''.'' @ d' \<and> x = (length ?v + 1 + j + length (drop j ?s), [], [1 \<mapsto> ?v, 2 \<mapsto> take j ?s, 3 \<mapsto> d']))
      \<or> (\<exists>e'. drop j ?s = ''.'' @ d' @ ''.'' @ e' \<and> no_nl e'
            \<and> x = (length ?v + 1 + j + length (drop j ?s), [], [1 \<mapsto> ?v, 2 \<mapsto> take j ?s, 3 \<mapsto> d', 4 \<mapsto> e']))"
    by blast
  from alt have "sub xc 4 = ?e \<or> sub xc 4 = []"
  proof
    assume "drop j ?s = ''.'' @ d' \<and> x = (length ?v + 1 + j + length (drop j ?s), [], [1 \<mapsto> ?v, 2 \<mapsto> take j ?s, 3 \<mapsto> d'])"
    then have "xc = [1 \<mapsto> ?v, 2 \<mapsto> take j ?s, 3 \<mapsto> d']" using xt by simp
    then have "xc 4 = None" by simp
    then show ?thesis by (simp add: sub_def)
  next
    assume "\<exists>e'. drop j ?s = ''.'' @ d' @ ''.'' @ e' \<and> no_nl e'
            \<and> x = (length ?v + 1 + j + length (drop j ?s), [], [1 \<mapsto> ?v, 2 \<mapsto> take j ?s, 3 \<mapsto> d', 4 \<mapsto> e'])"
    then obtain e' where t: "drop j ?s = ''.'' @ d' @ ''.'' @ e'" and ne: "no_nl e'"
      and xc: "xc = [1 \<mapsto> ?v, 2 \<mapsto> take j ?s, 3 \<mapsto> d', 4 \<mapsto> e']"
      using xt by auto
    have sub4: "sub xc 4 = e'" by (simp add: xc sub_def)
    show ?thesis
    proof (cases "e' = []")
      case True
      with sub4 show ?thesis by simp
    next
      case False
      have "?s = take j ?s @ drop j ?s" by (rule append_take_drop_id[symmetric])
      with t have "name = ?v @ ''_'' @ take j ?s @ ''.'' @ d' @ ''.'' @ e'"
        using name by metis
      then have "canonical_split name ?v (take j ?s) d' e'"
        unfolding canonical_split_def using v cand_range(1,2)[OF j] d' False ne by blast
      from matches_complete[OF this] assms have "length (take j ?s) \<le> length ?n" by auto
      with cand_range(3)[OF j] le have "j = length ?n" by simp
      with t have "''.'' @ ?d @ ''.'' @ ?e = ''.'' @ d' @ ''.'' @ e'" by simp
      from dir_tail_inject[OF this d d'] sub4 show ?thesis by simp
    qed
  qed
  with hasdir ext show ?thesis by simp
qed

subsection \<open>The names with a direction token and the migration-like names\<close>

lemma prefix_tail_bare:
  assumes "d = ''up'' \<or> d = ''down''"
  shows "run prefix_tail (p, ''.'' @ d, c) \<noteq> []"
  using assms
  unfolding prefix_tail_unfold run_opt_ext_Eol
  by (auto simp: has_prefix_def simp del: run.simps)

lemma prefix_tail_accepts:
  assumes "d = ''up'' \<or> d = ''down''" and "t = [] \<or> (\<exists>e. t = ''.'' @ e \<and> no_nl e)"
  shows "run prefix_tail (p, ''.'' @ d @ t, c) \<noteq> []"
  using assms(2)
proof
  assume "t = []"
  then show ?thesis using prefix_tail_bare[OF assms(1)] by simp
next
  assume "\<exists>e. t = ''.'' @ e \<and> no_nl e"
  then obtain e where "t = ''.'' @ e" "no_nl e" by blast
  then show ?thesis using prefix_tail_nonempty[OF assms(1), of e] by simp
qed

lemma prefix_sound:
  assumes "FindStringSubmatch migrationPrefixRe name = Some m"
  shows "\<exists>t. direction_split name (sub m 1) (sub m 2) (sub m 3) t
           \<and> ((t = [] \<and> sub m 4 = []) \<or> t = ''.'' @ sub m 4)"
proof -
  let ?v = "takeWhile is_digit name"
  let ?s = "name_rest name"
  let ?js = "rev [1 ..< Suc (length (takeWhile (in_class AnyNoNL) ?s))]"
  from assms obtain p s' rest where ar: "all_runs migrationPrefixRe name = (p, s', m) # rest"
    by (auto simp: FindStringSubmatch_def split: list.splits)
  then have ok: "head_ok name"
    by (auto simp: all_runs_migrationPrefixRe split: if_splits)
  from ar ok have "(p, s', m) \<in> set (concat (map (\<lambda>j. run prefix_tail
                 (length ?v + 1 + j, drop j ?s, [1 \<mapsto> ?v, 2 \<mapsto> take j ?s])) ?js))"
    by (simp only: all_runs_migrationPrefixRe if_True) simp
  then obtain j where j: "j \<in> set ?js"
    and x: "(p, s', m) \<in> set (run prefix_tail
                 (length ?v + 1 + j, drop j ?s, [1 \<mapsto> ?v, 2 \<mapsto> take j ?s]))"
    by auto
  from prefix_tail_result[OF x] obtain d where d: "d = ''up'' \<or> d = ''down''"
    and alt: "(drop j ?s = ''.'' @ d \<and> m = [1 \<mapsto> ?v, 2 \<mapsto> take j ?s, 3 \<mapsto> d])
      \<or> (\<exists>e. drop j ?s = ''.'' @ d @ ''.'' @ e \<and> no_nl e
            \<and> m = [1 \<mapsto> ?v, 2 \<mapsto> take j ?s, 3 \<mapsto> d, 4 \<mapsto> e])"
    by auto
  have name: "name = ?v @ ''_'' @ ?s" by (rule head_ok_split[OF ok])
  have s: "?s = take j ?s @ drop j ?s" by (rule append_take_drop_id[symmetric])
  have v: "?v \<noteq> []" using ok by (simp add: head_ok_def)
  have dv: "all_digits ?v"
    unfolding all_digits_def list_all_iff by (auto dest: set_takeWhileD)
  from alt show ?thesis
  proof
    assume a: "drop j ?s = ''.'' @ d \<and> m = [1 \<mapsto> ?v, 2 \<mapsto> take j ?s, 3 \<mapsto> d]"
    then have subs: "sub m 1 = ?v" "sub m 2 = take j ?s" "sub m 3 = d" "sub m 4 = []"
      by (simp_all add: sub_def)
    from name s a have "name = ?v @ ''_'' @ take j ?s @ ''.'' @ d @ []" by (metis append_Nil2)
    then have "direction_split name ?v (take j ?s) d []"
      unfolding direction_split_def using v dv cand_range(1,2)[OF j] d by blast
    then show ?thesis unfolding subs by blast
  next
    assume "\<exists>e. drop j ?s = ''.'' @ d @ ''.'' @ e \<and> no_nl e
            \<and> m = [1 \<mapsto> ?v, 2 \<mapsto> take j ?s, 3 \<mapsto> d, 4 \<mapsto> e]"
    then obtain e where t: "drop j ?s = ''.'' @ d @ ''.'' @ e" and e: "no_nl e"
      and m: "m = [1 \<mapsto> ?v, 2 \<mapsto> take j ?s, 3 \<mapsto> d, 4 \<mapsto> e]"
      by blast
    have subs: "sub m 1 = ?v" "sub m 2 = take j ?s" "sub m 3 = d" "sub m 4 = e"
      by (simp_all add: m sub_def)
    from name s t have "name = ?v @ ''_'' @ take j ?s @ ''.'' @ d @ (''.'' @ e)" by metis
    then have "direction_split name ?v (take j ?s) d (''.'' @ e)"
      unfolding direction_split_def using v dv cand_range(1,2)[OF j] d e by blast
    then show ?thesis unfolding subs by blast
  qed
qed

lemma prefix_complete:
  assumes "direction_split name v n d t"
  shows "\<exists>m. FindStringSubmatch migrationPrefixRe name = Some m \<and> length n \<le> length (sub m 2)"
proof -
  let ?s = "n @ ''.'' @ d @ t"
  let ?js = "rev [1 ..< Suc (length (takeWhile (in_class AnyNoNL) ?s))]"
  let ?g = "\<lambda>j. run prefix_tail (length v + 1 + j, drop j ?s, [1 \<mapsto> v, 2 \<mapsto> take j ?s])"
  from assms have name: "name = v @ ''_'' @ ?s" and v: "v \<noteq> []" "all_digits v"
    and n: "n \<noteq> []" "no_nl n" and d: "d = ''up'' \<or> d = ''down''"
    and t: "t = [] \<or> (\<exists>e. t = ''.'' @ e \<and> no_nl e)"
    by (simp_all add: direction_split_def)
  have hd: "takeWhile is_digit name = v" "head_ok name" "name_rest name = ?s"
    unfolding name using split_head[OF v(2) v(1)] by blast+
  have ar: "all_runs migrationPrefixRe name = concat (map ?g ?js)"
    by (simp only: all_runs_migrationPrefixRe hd if_True)
  have "\<forall>x\<in>set n. in_class AnyNoNL x" using n(2) by (simp add: no_nl_def list_all_iff)
  then have "takeWhile (in_class AnyNoNL) ?s = n @ takeWhile (in_class AnyNoNL) (''.'' @ d @ t)"
    by (simp add: takeWhile_append2)
  then have "length n \<le> length (takeWhile (in_class AnyNoNL) ?s)" by simp
  with n(1) have j0: "length n \<in> set ?js" by (cases n) auto
  have "?g (length n) \<noteq> []" using prefix_tail_accepts[OF d t] by simp
  from first_of_desc[OF desc_cands j0, of ?g, OF this]
  obtain j x rest where c: "concat (map ?g ?js) = x # rest" and x: "x \<in> set (?g j)"
    and j: "j \<in> set ?js" and le: "length n \<le> j"
    by blast
  obtain xp xs xc where xt: "x = (xp, xs, xc)" by (cases x) auto
  from ar c xt have fs: "FindStringSubmatch migrationPrefixRe name = Some xc"
    by (simp add: FindStringSubmatch_def)
  from prefix_tail_result[OF x] xt have "xc 2 = Some (take j ?s)" by auto
  then have "length (sub xc 2) = j" using cand_range(3)[OF j] by (simp add: sub_def)
  with fs le show ?thesis by auto
qed



lemma hasDirection_iff:
  "hasDirection name \<longleftrightarrow> (\<exists>v n d t. direction_split name v n d t)"
proof
  assume "hasDirection name"
  then obtain m where "FindStringSubmatch migrationPrefixRe name = Some m"
    by (auto simp: hasDirection_def)
  from prefix_sound[OF this] show "\<exists>v n d t. direction_split name v n d t" by blast
next
  assume "\<exists>v n d t. direction_split name v n d t"
  then obtain v n d t where "direction_split name v n d t" by blast
  from prefix_complete[OF this] show "hasDirection name" by (auto simp: hasDirection_def)
qed






text \<open>The loose pattern.\<close>

lemma concat_map_nonempty: "j \<in> set js \<Longrightarrow> g j \<noteq> [] \<Longrightarrow> concat (map g js) \<noteq> []"
  by (induction js) auto

lemma run_Plus_Seq:
  "run (Seq (PlusC k) r) (p, s, c) =
     concat (map (\<lambda>j. run r (p + j, drop j s, c))
                 (rev [1 ..< Suc (length (takeWhile (in_class k) s))]))"
  by (simp add: comp_def del: upt_Suc)

lemma run_dir_nocap:
  "run (Seq up_or_down r) (p, s, c) =
     (if has_prefix ''up'' s then run r (p + 2, drop 2 s, c)
      else if has_prefix ''down'' s then run r (p + 4, drop 4 s, c)
      else [])"
proof (cases "has_prefix ''up'' s")
  case True
  with up_down_excl[OF True] show ?thesis by (simp add: up_or_down_def eval_nat_numeral)
next
  case False
  then show ?thesis by (simp add: up_or_down_def eval_nat_numeral)
qed

lemma run_Plus_nonempty:
  "run (PlusC k) (p, s, c) \<noteq> [] \<longleftrightarrow> s \<noteq> [] \<and> in_class k (hd s)"
proof -
  have "run (PlusC k) (p, s, c) \<noteq> [] \<longleftrightarrow> takeWhile (in_class k) s \<noteq> []"
    by (simp del: upt_Suc)
  also have "\<dots> \<longleftrightarrow> s \<noteq> [] \<and> in_class k (hd s)" by (cases s) simp_all
  finally show ?thesis .
qed

lemma loose_tail_iff:
  "run loose_tail (p, t, c) \<noteq> [] \<longleftrightarrow>
     (\<exists>d r. (d = ''up'' \<or> d = ''down'') \<and> t = ''.'' @ d @ ''.'' @ r \<and> r \<noteq> [] \<and> \<not> is_nl (hd r))"
proof -
  have unf: "run loose_tail (p, t, c) =
    (if has_prefix ''.'' t then
       (if has_prefix ''up'' (drop 1 t)
        then (if has_prefix ''.'' (drop 3 t) then run (PlusC AnyNoNL) (p + 4, drop 4 t, c) else [])
        else if has_prefix ''down'' (drop 1 t)
        then (if has_prefix ''.'' (drop 5 t) then run (PlusC AnyNoNL) (p + 6, drop 6 t, c) else [])
        else [])
     else [])" for t
    unfolding loose_tail_def seqs.simps
    by (simp only: run_Lit_Seq run_dir_nocap run.simps(3)) (simp add: eval_nat_numeral del: run.simps)
  show ?thesis
  proof
    assume ne: "run loose_tail (p, t, c) \<noteq> []"
    then have dot: "has_prefix ''.'' t" unfolding unf by (simp split: if_splits del: run.simps)
    show "\<exists>d r. (d = ''up'' \<or> d = ''down'') \<and> t = ''.'' @ d @ ''.'' @ r \<and> r \<noteq> [] \<and> \<not> is_nl (hd r)"
    proof (cases "has_prefix ''up'' (drop 1 t)")
      case True
      with ne dot have d2: "has_prefix ''.'' (drop 3 t)"
        and r: "run (PlusC AnyNoNL) (p + 4, drop 4 t, c) \<noteq> []"
        unfolding unf by (simp_all split: if_splits del: run.simps)
      from dot True d2 have "has_prefix ''.up.'' t" by (simp only: has_prefix_up)
      then have "t = ''.up.'' @ drop 4 t"
        using has_prefix_drop[of "''.up.''" t] by (simp add: eval_nat_numeral)
      then have "t = ''.'' @ ''up'' @ ''.'' @ drop 4 t" by simp
      moreover have "drop 4 t \<noteq> [] \<and> \<not> is_nl (hd (drop 4 t))"
        using r unfolding run_Plus_nonempty by simp
      ultimately show ?thesis by blast
    next
      case False
      with ne dot have dn: "has_prefix ''down'' (drop 1 t)"
        unfolding unf by (simp split: if_splits del: run.simps)
      with False ne dot have d2: "has_prefix ''.'' (drop 5 t)"
        and r: "run (PlusC AnyNoNL) (p + 6, drop 6 t, c) \<noteq> []"
        unfolding unf by (simp_all split: if_splits del: run.simps)
      from dot dn d2 have "has_prefix ''.down.'' t" by (simp only: has_prefix_down)
      then have "t = ''.down.'' @ drop 6 t"
        using has_prefix_drop[of "''.down.''" t] by (simp add: eval_nat_numeral)
      then have "t = ''.'' @ ''down'' @ ''.'' @ drop 6 t" by simp
      moreover have "drop 6 t \<noteq> [] \<and> \<not> is_nl (hd (drop 6 t))"
        using r unfolding run_Plus_nonempty by simp
      ultimately show ?thesis by blast
    qed
  next
    assume "\<exists>d r. (d = ''up'' \<or> d = ''down'') \<and> t = ''.'' @ d @ ''.'' @ r \<and> r \<noteq> [] \<and> \<not> is_nl (hd r)"
    then obtain d r where d: "d = ''up'' \<or> d = ''down''" and t: "t = ''.'' @ d @ ''.'' @ r"
      and r: "r \<noteq> []" "\<not> is_nl (hd r)"
      by blast
    have "run (PlusC AnyNoNL) (q, r, c) \<noteq> []" for q
      using r unfolding run_Plus_nonempty by simp
    with d show "run loose_tail (p, t, c) \<noteq> []"
      unfolding unf t by (auto simp: has_prefix_def simp del: run.simps)
  qed
qed

lemma all_runs_migrationLikeRe:
  "all_runs migrationLikeRe name =
     (if head_ok name
      then concat (map (\<lambda>j. run loose_tail
                 (length (takeWhile is_digit name) + 1 + j, drop j (name_rest name), Map.empty))
              (rev [1 ..< Suc (length (takeWhile (in_class AnyNoNL) (name_rest name)))]))
      else [])"
proof -
  have unf: "migrationLikeRe =
     Seq Bol (Seq (PlusC Digit) (Seq (Lit ''_'') (Seq (PlusC AnyNoNL) loose_tail)))"
    by (simp add: migrationLikeRe_def loose_tail_def)
  show ?thesis
    apply (simp only: unf all_runs_Bol)
    apply (simp only: run_head_nocap)
    apply (simp only: run_Plus_Seq head_ok_def name_rest_def)
    apply simp
    done
qed

lemma isMigrationLike_iff:
  "isMigrationLike name \<longleftrightarrow> (\<exists>v n d r. loose_split name v n d r)"
proof
  let ?v = "takeWhile is_digit name"
  let ?s = "name_rest name"
  let ?js = "rev [1 ..< Suc (length (takeWhile (in_class AnyNoNL) ?s))]"
  assume "isMigrationLike name"
  then have ne: "all_runs migrationLikeRe name \<noteq> []"
    by (simp add: isMigrationLike_def MatchString_def)
  then have ok: "head_ok name"
    by (auto simp: all_runs_migrationLikeRe split: if_splits)
  from ne ok have "concat (map (\<lambda>j. run loose_tail (length ?v + 1 + j, drop j ?s, Map.empty)) ?js) \<noteq> []"
    by (simp only: all_runs_migrationLikeRe if_True) simp
  then obtain j where j: "j \<in> set ?js"
    and x: "run loose_tail (length ?v + 1 + j, drop j ?s, Map.empty) \<noteq> []"
    by (auto simp del: upt_Suc)
  from x obtain d r where d: "d = ''up'' \<or> d = ''down''" and t: "drop j ?s = ''.'' @ d @ ''.'' @ r"
    and r: "r \<noteq> []" "\<not> is_nl (hd r)"
    unfolding loose_tail_iff by blast
  have name: "name = ?v @ ''_'' @ ?s" by (rule head_ok_split[OF ok])
  have s: "?s = take j ?s @ drop j ?s" by (rule append_take_drop_id[symmetric])
  have v: "?v \<noteq> []" using ok by (simp add: head_ok_def)
  have dv: "all_digits ?v"
    unfolding all_digits_def list_all_iff by (auto dest: set_takeWhileD)
  from name s t have "name = ?v @ ''_'' @ take j ?s @ ''.'' @ d @ ''.'' @ r" by metis
  then have "loose_split name ?v (take j ?s) d r"
    unfolding loose_split_def using v dv cand_range(1,2)[OF j] d r by blast
  then show "\<exists>v n d r. loose_split name v n d r" by blast
next
  assume "\<exists>v n d r. loose_split name v n d r"
  then obtain v n d r where sp: "loose_split name v n d r" by blast
  let ?s = "n @ ''.'' @ d @ ''.'' @ r"
  let ?js = "rev [1 ..< Suc (length (takeWhile (in_class AnyNoNL) ?s))]"
  let ?g = "\<lambda>j. run loose_tail (length v + 1 + j, drop j ?s, Map.empty)"
  from sp have name: "name = v @ ''_'' @ ?s" and v: "v \<noteq> []" "all_digits v"
    and n: "n \<noteq> []" "no_nl n" and d: "d = ''up'' \<or> d = ''down''"
    and r: "r \<noteq> []" "\<not> is_nl (hd r)"
    by (simp_all add: loose_split_def)
  have hd: "takeWhile is_digit name = v" "head_ok name" "name_rest name = ?s"
    unfolding name using split_head[OF v(2) v(1)] by blast+
  have ar: "all_runs migrationLikeRe name = concat (map ?g ?js)"
    by (simp only: all_runs_migrationLikeRe hd if_True)
  have "\<forall>x\<in>set n. in_class AnyNoNL x" using n(2) by (simp add: no_nl_def list_all_iff)
  then have "takeWhile (in_class AnyNoNL) ?s = n @ takeWhile (in_class AnyNoNL) (''.'' @ d @ ''.'' @ r)"
    by (simp add: takeWhile_append2)
  then have "length n \<le> length (takeWhile (in_class AnyNoNL) ?s)" by simp
  with n(1) have j0: "length n \<in> set ?js" by (cases n) auto
  have "run loose_tail (q, ''.'' @ d @ ''.'' @ r, c) \<noteq> []" for q c
    unfolding loose_tail_iff using d r by blast
  then have "?g (length n) \<noteq> []" by simp
  with j0 have "concat (map ?g ?js) \<noteq> []" by (rule concat_map_nonempty)
  then have "all_runs migrationLikeRe name \<noteq> []" unfolding ar .
  then show "isMigrationLike name" unfolding isMigrationLike_def MatchString_def .
qed

subsection \<open>Kinds of violations\<close>

lemma formatExtMismatch_kind:
  "per_entry_kind (formatExtMismatch p x f e)" "is_ext_mismatch (formatExtMismatch p x f e)"
  by (simp_all add: formatExtMismatch_def)

lemma ext_enforcement_kind:
  "x \<in> set (ext_enforcement cfg name p) \<Longrightarrow> is_ext_mismatch x"
  by (auto simp: ext_enforcement_def formatExtMismatch_kind split: if_splits)

lemma is_ext_mismatch_per_entry: "is_ext_mismatch x \<Longrightarrow> per_entry_kind x"
  by (cases x) simp_all

lemma digits_check_kind:
  "x \<in> set (digits_check cfg p s) \<Longrightarrow> is_digits_mismatch x"
  by (auto simp: digits_check_def split: if_splits)

lemma file_errors_kind: "x \<in> set (file_errors cfg name p) \<Longrightarrow> per_entry_kind x"
  by (auto simp: file_errors_def digits_check_def
        split: option.splits if_splits sum.splits
        dest!: ext_enforcement_kind is_ext_mismatch_per_entry)

lemma entry_errors_kind: "x \<in> set (entry_errors J cfg e) \<Longrightarrow> per_entry_kind x"
  by (auto simp: entry_errors_def split: if_splits file_type.splits stat_result.splits
        dest: file_errors_kind)

lemma group_checks_version: "x \<in> set (group_checks cfg v g) \<Longrightarrow> version_of x = Some v"
  by (auto simp: group_checks_def Let_def split: if_splits)

lemma gap_report_kind: "x \<in> set (gap_report p c) \<Longrightarrow> is_gap x"
  by (auto simp: gap_report_def split: if_splits)

lemma gaps_kind: "x \<in> set (gaps ks) \<Longrightarrow> is_gap x"
  by (induction ks rule: gaps.induct) (auto dest: gap_report_kind)

lemma Lint_Inr:
  assumes "Lint J cfg fs = Inr out"
  shows "DirStat fs = StatIsDir \<and> (\<exists>es. ReadDir fs = Inr es)"
  using assms
  by (cases "DirStat fs"; cases "ReadDir fs") (auto simp: Lint_def ensureDir_def)

lemma group_part_version:
  "x \<in> set (concat (map (\<lambda>v. group_checks cfg v (g v)) ks)) \<Longrightarrow> version_of x \<noteq> None"
  by (auto dest: group_checks_version)

lemma entry_part_kind:
  "x \<in> set (concat (map (entry_errors J cfg) es)) \<Longrightarrow> per_entry_kind x"
  by (auto dest: entry_errors_kind)

lemma gap_part_kind:
  "x \<in> set (if NoGaps cfg then gaps ks else []) \<Longrightarrow> is_gap x"
  by (auto dest: gaps_kind split: if_splits)

lemma kinds_disjoint:
  "per_entry_kind x \<Longrightarrow> version_of x = None \<and> \<not> is_gap x"
  "is_gap x \<Longrightarrow> version_of x = None \<and> \<not> per_entry_kind x"
  "version_of x \<noteq> None \<Longrightarrow> \<not> is_gap x \<and> \<not> per_entry_kind x"
  by (cases x; simp)+

lemma Lint_parts:
  assumes "Lint J cfg fs = Inr out"
  obtains es where "DirStat fs = StatIsDir" and "ReadDir fs = Inr es"
    and "out = concat (map (entry_errors J cfg) es)
          @ concat (map (\<lambda>v. group_checks cfg v (group_of (records J cfg es) v))
                        (version_keys (records J cfg es)))
          @ (if NoGaps cfg then gaps (version_keys (records J cfg es)) else [])"
proof -
  from Lint_Inr[OF assms] obtain es where d: "DirStat fs = StatIsDir" and es: "ReadDir fs = Inr es"
    by blast
  from assms have "out = concat (map (entry_errors J cfg) es)
          @ concat (map (\<lambda>v. group_checks cfg v (group_of (records J cfg es) v))
                        (version_keys (records J cfg es)))
          @ (if NoGaps cfg then gaps (version_keys (records J cfg es)) else [])"
    by (simp only: Lint_char[OF d es] sum.inject)
  with d es show ?thesis by (rule that)
qed

lemma in_entry_part:
  assumes "Lint J cfg fs = Inr out" and "x \<in> set out" and "per_entry_kind x"
  shows "\<exists>es e. ReadDir fs = Inr es \<and> e \<in> set es \<and> x \<in> set (entry_errors J cfg e)"
proof -
  from Lint_parts[OF assms(1)] obtain es where es: "ReadDir fs = Inr es"
    and out: "out = concat (map (entry_errors J cfg) es)
          @ concat (map (\<lambda>v. group_checks cfg v (group_of (records J cfg es) v))
                        (version_keys (records J cfg es)))
          @ (if NoGaps cfg then gaps (version_keys (records J cfg es)) else [])"
    by blast
  from kinds_disjoint(1)[OF assms(3)] have v: "version_of x = None" and g: "\<not> is_gap x" by simp_all
  from assms(2) have "x \<in> set (concat (map (entry_errors J cfg) es))
     \<or> x \<in> set (concat (map (\<lambda>v. group_checks cfg v (group_of (records J cfg es) v))
                        (version_keys (records J cfg es))))
     \<or> x \<in> set (if NoGaps cfg then gaps (version_keys (records J cfg es)) else [])"
    unfolding out by (simp only: set_append Un_iff)
  with v g have "x \<in> set (concat (map (entry_errors J cfg) es))"
    using group_part_version gap_part_kind by blast
  then obtain e where "e \<in> set es" "x \<in> set (entry_errors J cfg e)" by auto
  with es show ?thesis by blast
qed

section \<open>The claims\<close>

subsection \<open>File names (C1, C2) and extension matching (C8)\<close>

text \<open>
  Claim C1, as stated, fails: on \<^verbatim>\<open>1_a.up.down.sql\<close> the canonical pattern takes the name
  \<^verbatim>\<open>a.up\<close>, the direction \<^verbatim>\<open>down\<close> and the extension part \<^verbatim>\<open>sql\<close>, not the
  shortest name; and a name part with a line feed in it does not match at all.
\<close>

theorem canonical_match_not_shortest:
  "canonical_fields ''1_a.up.down.sql'' = Some (''1'', ''a.up'', ''down'', ''sql'')
   \<and> canonical_fields ''1_a.up.down.sql'' \<noteq> Some (''1'', ''a'', ''up'', ''down.sql'')
   \<and> canonical_fields (''1_a'' @ [CHR 0x0A] @ ''b.up.sql'') = None"
  by code_simp

text \<open>
  Claim C1, amended. The canonical pattern matches a file name exactly when the name splits
  as digits, an underscore, a name part, \<^verbatim>\<open>.up.\<close> or \<^verbatim>\<open>.down.\<close>, and an extension
  part, with the name part and the extension part non-empty and free of line feeds
  (\<open>canonical_split\<close>). The groups of the match are such a split, and its name part is the
  longest among all such splits of the file name: the name group is greedy. The file names
  \<^verbatim>\<open>001_.up.sql\<close> and \<^verbatim>\<open>001_x.up.\<close> do not match.
\<close>

theorem canonical_match_longest:
  "(matches name \<noteq> None \<longleftrightarrow> (\<exists>v n d e. canonical_split name v n d e))
   \<and> (\<forall>m. matches name = Some m \<longrightarrow>
         canonical_split name (sub m 1) (sub m 2) (sub m 3) (sub m 4)
         \<and> (\<forall>v n d e. canonical_split name v n d e \<longrightarrow> length n \<le> length (sub m 2)))
   \<and> matches ''001_.up.sql'' = None \<and> matches ''001_x.up.'' = None"
proof -
  have a: "matches name \<noteq> None \<longleftrightarrow> (\<exists>v n d e. canonical_split name v n d e)"
    using matches_sound[of name] matches_complete[of name] by (metis option.exhaust option.distinct(1))
  have b: "\<forall>m. matches name = Some m \<longrightarrow>
         canonical_split name (sub m 1) (sub m 2) (sub m 3) (sub m 4)
         \<and> (\<forall>v n d e. canonical_split name v n d e \<longrightarrow> length n \<le> length (sub m 2))"
    using matches_sound[of name] matches_complete[of name] by fastforce
  have c: "matches ''001_.up.sql'' = None" by code_simp
  have d: "matches ''001_x.up.'' = None" by code_simp
  from a b c d show ?thesis by blast
qed

text \<open>
  The amended claim C1 at \<^verbatim>\<open>1_a.up.down.sql\<close>, a name with two splits: the match is a
  split, and the name part of the other split is no longer than the matched one.
\<close>

theorem canonical_match_longest_witness:
  "\<exists>m. matches ''1_a.up.down.sql'' = Some m
     \<and> canonical_split ''1_a.up.down.sql'' (sub m 1) (sub m 2) (sub m 3) (sub m 4)
     \<and> canonical_split ''1_a.up.down.sql'' ''1'' ''a'' ''up'' ''down.sql''
     \<and> length ''a'' \<le> length (sub m 2)"
proof -
  have s: "canonical_split ''1_a.up.down.sql'' ''1'' ''a'' ''up'' ''down.sql''"
    by (simp add: canonical_split_def all_digits_def no_nl_def is_digit_def is_nl_def)
  then have "matches ''1_a.up.down.sql'' \<noteq> None"
    using canonical_match_longest[of "''1_a.up.down.sql''"] by blast
  then obtain m where m: "matches ''1_a.up.down.sql'' = Some m" by auto
  with canonical_match_longest[of "''1_a.up.down.sql''"] s show ?thesis by blast
qed

text \<open>
  Claim C2, as stated, fails: \<^verbatim>\<open>NAME.up\<close> has no direction token for the linter. A run
  shows it: under an enforced filter \<^verbatim>\<open>sql\<close> the extension rule reports a file that is
  canonical, migration-like or has a direction token; it reports \<^verbatim>\<open>1_a.up\<close>, which has
  a direction token, and it does not report \<^verbatim>\<open>NAME.up\<close>.
\<close>

theorem direction_token_without_digits:
  "\<not> hasDirection ''NAME.up''
   \<and> \<not> isMigrationLike ''NAME.up'' \<and> matches ''NAME.up'' = None
   \<and> Lint slash_join (default_config\<lparr>Ext := ''sql'', EnforceExt := True\<rparr>)
        (directory_of [''NAME.up'']) = Inr []
   \<and> Lint slash_join (default_config\<lparr>Ext := ''sql'', EnforceExt := True\<rparr>)
        (directory_of [''1_a.up'']) = Inr [ExtMismatchFinal ''d/1_a.up'' ''<none>'' ''<none>'' ''sql'']"
  by code_simp

text \<open>
  Claim C2, amended. The direction-token detection, like the loose migration-like pattern,
  requires the file name to start with digits followed by an underscore. A file name has a
  direction token exactly when it is digits, an underscore, a non-empty name part, a dot and
  \<^verbatim>\<open>up\<close> or \<^verbatim>\<open>down\<close>, followed by nothing or by a dot and an extension part
  (\<open>direction_split\<close>). A file name is migration-like exactly when it starts with digits, an
  underscore, a non-empty name part, a dot, \<^verbatim>\<open>up\<close> or \<^verbatim>\<open>down\<close>, a dot, and one more
  character that is no line feed (\<open>loose_split\<close>). So a file name that has a direction token
  or is migration-like starts with a non-empty run of digits followed by an underscore.
\<close>

theorem direction_token_needs_digits:
  "(hasDirection name \<longleftrightarrow> (\<exists>v n d t. direction_split name v n d t))
   \<and> (isMigrationLike name \<longleftrightarrow> (\<exists>v n d r. loose_split name v n d r))
   \<and> (hasDirection name \<or> isMigrationLike name \<longrightarrow>
        (\<exists>v r. name = v @ ''_'' @ r \<and> v \<noteq> [] \<and> all_digits v))"
proof -
  have a: "hasDirection name \<longleftrightarrow> (\<exists>v n d t. direction_split name v n d t)"
    by (rule hasDirection_iff)
  have b: "isMigrationLike name \<longleftrightarrow> (\<exists>v n d r. loose_split name v n d r)"
    by (rule isMigrationLike_iff)
  have c: "hasDirection name \<or> isMigrationLike name \<longrightarrow>
        (\<exists>v r. name = v @ ''_'' @ r \<and> v \<noteq> [] \<and> all_digits v)"
    using hasDirection_head[of name] isMigrationLike_head[of name] head_ok_shape[of name]
    by blast
  show ?thesis by (intro conjI a b c)
qed

text \<open>
  The amended claim C2 at \<^verbatim>\<open>1_a.up\<close>, which has a direction token, at
  \<^verbatim>\<open>1_a.up.sql\<close>, which is migration-like, and at \<^verbatim>\<open>NAME.up\<close>, which has no split.
\<close>

theorem direction_token_needs_digits_witness:
  "hasDirection ''1_a.up''
   \<and> (\<exists>v r. ''1_a.up'' = v @ ''_'' @ r \<and> v \<noteq> [] \<and> all_digits v)
   \<and> (\<exists>v n d t. direction_split ''1_a.up'' v n d t)
   \<and> isMigrationLike ''1_a.up.sql''
   \<and> (\<exists>v n d r. loose_split ''1_a.up.sql'' v n d r)
   \<and> \<not> (\<exists>v n d t. direction_split ''NAME.up'' v n d t)
   \<and> \<not> (\<exists>v n d r. loose_split ''NAME.up'' v n d r)"
proof -
  have a: "hasDirection ''1_a.up''" by code_simp
  have b: "isMigrationLike ''1_a.up.sql''" by code_simp
  have c: "\<not> hasDirection ''NAME.up''" by code_simp
  have d: "\<not> isMigrationLike ''NAME.up''" by code_simp
  note t1 = direction_token_needs_digits[of "''1_a.up''"]
  note t2 = direction_token_needs_digits[of "''1_a.up.sql''"]
  note t3 = direction_token_needs_digits[of "''NAME.up''"]
  have w2: "\<exists>v r. ''1_a.up'' = v @ ''_'' @ r \<and> v \<noteq> [] \<and> all_digits v"
    by (rule mp[OF t1[THEN conjunct2, THEN conjunct2] disjI1[OF a]])
  have w3: "\<exists>v n d t. direction_split ''1_a.up'' v n d t"
    by (rule iffD1[OF t1[THEN conjunct1] a])
  have w5: "\<exists>v n d r. loose_split ''1_a.up.sql'' v n d r"
    by (rule iffD1[OF t2[THEN conjunct2, THEN conjunct1] b])
  from c have w6: "\<not> (\<exists>v n d t. direction_split ''NAME.up'' v n d t)"
    unfolding t3[THEN conjunct1] .
  from d have w7: "\<not> (\<exists>v n d r. loose_split ''NAME.up'' v n d r)"
    unfolding t3[THEN conjunct2, THEN conjunct1] .
  show ?thesis by (intro conjI a w2 w3 b w5 w6 w7)
qed




subsection \<open>The digit width (C10)\<close>

lemma digits_mismatch_entry:
  assumes "DigitsMismatch p l d \<in> set (entry_errors J cfg e)"
  shows "0 < Digits cfg \<and> d = Digits cfg \<and> l \<noteq> d"
proof -
  from assms have "DigitsMismatch p l d \<in> set (file_errors cfg (Name e) (J (Path cfg) (Name e)))"
    by (auto simp: entry_errors_def split: if_splits file_type.splits stat_result.splits)
  then show ?thesis
    by (auto simp: file_errors_def digits_check_def
          split: option.splits if_splits sum.splits dest: ext_enforcement_kind)
qed

text \<open>
  Claim C10. When the configured width is zero, a run of the linter reports no digits
  mismatch; a digits mismatch in the output means that the configured width is positive,
  is the width reported, and differs from the length reported. Zero is the default of the
  flag, and \<^verbatim>\<open>parseFlags\<close> accepts no negative width.
\<close>

theorem digits_check_only_when_positive:
  assumes "Lint J cfg fs = Inr out"
  shows "(Digits cfg = 0 \<longrightarrow> filter is_digits_mismatch out = [])
       \<and> (\<forall>p l d. DigitsMismatch p l d \<in> set out \<longrightarrow> 0 < Digits cfg \<and> d = Digits cfg \<and> l \<noteq> d)
       \<and> Digits flag_defaults = 0
       \<and> (\<forall>parsed accepted. parseFlags parsed = Inr accepted \<longrightarrow> 0 \<le> Digits accepted)"
proof -
  have b: "\<forall>p l d. DigitsMismatch p l d \<in> set out \<longrightarrow> 0 < Digits cfg \<and> d = Digits cfg \<and> l \<noteq> d"
  proof (intro allI impI)
    fix p l d assume m: "DigitsMismatch p l d \<in> set out"
    have "per_entry_kind (DigitsMismatch p l d)" by simp
    from in_entry_part[OF assms m this] obtain e
      where "DigitsMismatch p l d \<in> set (entry_errors J cfg e)" by auto
    then show "0 < Digits cfg \<and> d = Digits cfg \<and> l \<noteq> d" by (rule digits_mismatch_entry)
  qed
  have a: "Digits cfg = 0 \<longrightarrow> filter is_digits_mismatch out = []"
  proof
    assume z: "Digits cfg = 0"
    have "\<And>x. x \<in> set out \<Longrightarrow> \<not> is_digits_mismatch x"
    proof
      fix x assume x: "x \<in> set out" "is_digits_mismatch x"
      from x(2) obtain p l d where "x = DigitsMismatch p l d" by (cases x) auto
      with x b z show False by auto
    qed
    then show "filter is_digits_mismatch out = []" by (simp add: filter_empty_conv)
  qed
  have c: "Digits flag_defaults = 0" by (simp add: flag_defaults_def)
  have d: "\<forall>parsed accepted. parseFlags parsed = Inr accepted \<longrightarrow> 0 \<le> Digits accepted"
    by (auto simp: parseFlags_def Let_def split: if_splits)
  from a b c d show ?thesis by blast
qed

text \<open>
  Claim C10 on two runs: width 0 with a three-digit and a one-digit version, and width 6
  with a three-digit version.
\<close>

theorem digits_check_only_when_positive_witness:
  "Lint slash_join default_config (directory_of [''001_a.up.sql'', ''1_b.up.sql''])
     = Inr [DuplicateUp 1 ''d/001_a.up.sql, d/1_b.up.sql'']
   \<and> Digits default_config = 0
   \<and> filter is_digits_mismatch [DuplicateUp 1 ''d/001_a.up.sql, d/1_b.up.sql''] = []
   \<and> Lint slash_join (default_config\<lparr>Digits := 6\<rparr>) (directory_of [''001_create.up.sql''])
     = Inr [DigitsMismatch ''d/001_create.up.sql'' 3 6]
   \<and> 0 < Digits (default_config\<lparr>Digits := 6\<rparr>)
   \<and> parseFlags (default_config\<lparr>Digits := 6\<rparr>) = Inr (default_config\<lparr>Digits := 6\<rparr>)
   \<and> 0 \<le> Digits (default_config\<lparr>Digits := 6\<rparr>)"
proof -
  have r0: "Lint slash_join default_config (directory_of [''001_a.up.sql'', ''1_b.up.sql''])
     = Inr [DuplicateUp 1 ''d/001_a.up.sql, d/1_b.up.sql'']" by code_simp
  have z: "Digits default_config = 0" by (simp add: default_config_def)
  have r6: "Lint slash_join (default_config\<lparr>Digits := 6\<rparr>) (directory_of [''001_create.up.sql''])
     = Inr [DigitsMismatch ''d/001_create.up.sql'' 3 6]" by code_simp
  have pf: "parseFlags (default_config\<lparr>Digits := 6\<rparr>) = Inr (default_config\<lparr>Digits := 6\<rparr>)"
    by (simp add: parseFlags_def default_config_def)
  from digits_check_only_when_positive[OF r0] z
  have a: "filter is_digits_mismatch [DuplicateUp 1 ''d/001_a.up.sql, d/1_b.up.sql''] = []"
    by blast
  have m: "DigitsMismatch ''d/001_create.up.sql'' 3 6 \<in> set [DigitsMismatch ''d/001_create.up.sql'' 3 6]"
    by simp
  from digits_check_only_when_positive[OF r6] m
  have b: "0 < Digits (default_config\<lparr>Digits := 6\<rparr>)" by blast
  from digits_check_only_when_positive[OF r6] pf
  have c: "0 \<le> Digits (default_config\<lparr>Digits := 6\<rparr>)" by blast
  from r0 z a r6 b pf c show ?thesis by blast
qed

subsection \<open>Gaps (C7)\<close>

lemma gaps_zip: "gaps ks = concat (map (\<lambda>(p, c). gap_report p c) (zip ks (tl ks)))"
  by (induction ks rule: gaps.induct) simp_all

lemma gap_report_length: "length (gap_report p c) = (if c = p + 1 then 0 else 1)"
  by (simp add: gap_report_def)

lemma gaps_count:
  "length (gaps ks) = length (filter (\<lambda>(p, c). c \<noteq> p + 1) (zip ks (tl ks)))"
  by (induction ks rule: gaps.induct) (simp_all add: gap_report_length)

lemma filter_gap_parts:
  assumes "out = E @ G @ P"
    and "\<And>x. x \<in> set E \<Longrightarrow> per_entry_kind x"
    and "\<And>x. x \<in> set G \<Longrightarrow> version_of x \<noteq> None"
    and "\<And>x. x \<in> set P \<Longrightarrow> is_gap x"
  shows "filter is_gap out = P"
proof -
  have "filter is_gap E = []" using assms(2) kinds_disjoint(1) by (auto simp: filter_empty_conv)
  moreover have "filter is_gap G = []" using assms(3) kinds_disjoint(3) by (auto simp: filter_empty_conv)
  moreover have "filter is_gap P = P" using assms(4) by (simp add: filter_id_conv)
  ultimately show ?thesis by (simp add: assms(1))
qed

text \<open>
  Claim C7. The gap violations of a run are, when no-gaps is enabled, the reports \<open>gaps\<close>
  of the sorted distinct versions of the grouped records, and none otherwise. \<open>gaps\<close>
  walks the adjacent pairs: a pair of consecutive versions reports nothing, a pair two apart
  reports the one missing version, any other pair reports the missing range, each with the
  two bounding versions; so there is one report per pair that is not consecutive. The
  versions 1, 3 give the missing version 2; the versions 1, 5 give the range 2..4; the
  versions 1, 2, 3 give nothing.
\<close>

theorem gap_rule_exact:
  assumes "DirStat fs = StatIsDir" and "ReadDir fs = Inr es"
  shows "\<exists>out. Lint J cfg fs = Inr out
      \<and> filter is_gap out = (if NoGaps cfg then gaps (version_keys (records J cfg es)) else [])
      \<and> sorted (version_keys (records J cfg es)) \<and> distinct (version_keys (records J cfg es))
      \<and> set (version_keys (records J cfg es)) = Version ` set (records J cfg es)
      \<and> gaps ks = concat (map (\<lambda>(p, c). gap_report p c) (zip ks (tl ks)))
      \<and> length (gaps ks) = length (filter (\<lambda>(p, c). c \<noteq> p + 1) (zip ks (tl ks)))
      \<and> gap_report p (p + 1) = []
      \<and> gap_report p (p + 2) = [MissingVersion (p + 1) p (p + 2)]
      \<and> (c \<noteq> p + 1 \<and> c \<noteq> p + 2 \<longrightarrow> gap_report p c = [MissingVersions (p + 1) (c - 1) p c])
      \<and> gaps [1, 3] = [MissingVersion 2 1 3]
      \<and> gaps [1, 5] = [MissingVersions 2 4 1 5]
      \<and> gaps [1, 2, 3] = []"
proof -
  let ?E = "concat (map (entry_errors J cfg) es)"
  let ?G = "concat (map (\<lambda>v. group_checks cfg v (group_of (records J cfg es) v))
                        (version_keys (records J cfg es)))"
  let ?P = "if NoGaps cfg then gaps (version_keys (records J cfg es)) else []"
  have L: "Lint J cfg fs = Inr (?E @ ?G @ ?P)" by (rule Lint_char[OF assms])
  have F: "filter is_gap (?E @ ?G @ ?P) = ?P"
    by (rule filter_gap_parts[OF refl], erule entry_part_kind, erule group_part_version,
        erule gap_part_kind)
  have r: "gap_report p (p + 1) = []" "gap_report p (p + 2) = [MissingVersion (p + 1) p (p + 2)]"
    "c \<noteq> p + 1 \<and> c \<noteq> p + 2 \<longrightarrow> gap_report p c = [MissingVersions (p + 1) (c - 1) p c]"
    by (auto simp: gap_report_def)
  have ex: "gaps [1, 3] = [MissingVersion 2 1 3]" "gaps [1, 5] = [MissingVersions 2 4 1 5]"
    "gaps [1, 2, 3] = []"
    by (simp_all add: gap_report_def)
  from L F version_keys_props[of "records J cfg es"] gaps_zip[of ks] gaps_count[of ks] r ex
  show ?thesis by blast
qed

text \<open>
  Claim C7 on three directories, with the versions 1 and 3, 1 and 5, and 1, 2 and 3.
\<close>

theorem gap_rule_exact_witness:
  "Lint slash_join (default_config\<lparr>NoGaps := True\<rparr>)
      (directory_of [''000001_a.up.sql'', ''000003_a.up.sql'']) = Inr [MissingVersion 2 1 3]
   \<and> Lint slash_join (default_config\<lparr>NoGaps := True\<rparr>)
      (directory_of [''000001_a.up.sql'', ''000005_a.up.sql'']) = Inr [MissingVersions 2 4 1 5]
   \<and> Lint slash_join (default_config\<lparr>NoGaps := True\<rparr>)
      (directory_of [''000001_a.up.sql'', ''000002_a.up.sql'', ''000003_a.up.sql'']) = Inr []
   \<and> gaps (version_keys (records slash_join (default_config\<lparr>NoGaps := True\<rparr>)
        (map regular_file [''000001_a.up.sql'', ''000003_a.up.sql''])))
      = [MissingVersion 2 1 3]"
proof -
  let ?cfg = "default_config\<lparr>NoGaps := True\<rparr>"
  have a: "Lint slash_join ?cfg
      (directory_of [''000001_a.up.sql'', ''000003_a.up.sql'']) = Inr [MissingVersion 2 1 3]"
    by code_simp
  have b: "Lint slash_join ?cfg
      (directory_of [''000001_a.up.sql'', ''000005_a.up.sql'']) = Inr [MissingVersions 2 4 1 5]"
    by code_simp
  have c: "Lint slash_join ?cfg
      (directory_of [''000001_a.up.sql'', ''000002_a.up.sql'', ''000003_a.up.sql'']) = Inr []"
    by code_simp
  have d: "DirStat (directory_of [''000001_a.up.sql'', ''000003_a.up.sql'']) = StatIsDir"
    "ReadDir (directory_of [''000001_a.up.sql'', ''000003_a.up.sql''])
       = Inr (map regular_file [''000001_a.up.sql'', ''000003_a.up.sql''])"
    by (simp_all add: directory_of_def)
  have n: "NoGaps ?cfg" by simp
  from gap_rule_exact[OF d, of slash_join ?cfg] a n
  have "gaps (version_keys (records slash_join ?cfg
        (map regular_file [''000001_a.up.sql'', ''000003_a.up.sql''])))
      = [MissingVersion 2 1 3]"
    by auto
  with a b c show ?thesis by blast
qed

subsection \<open>Duplicates (C5)\<close>

lemma entry_migration_path:
  "entry_migration J cfg e = Some m \<Longrightarrow> mPath m = J (Path cfg) (Name e)"
  by (auto simp: entry_migration_def file_migration_def
        split: if_splits option.splits sum.splits)

lemma ups_paths:
  "map mPath (ups (records J cfg es) v) =
     map (\<lambda>e. J (Path cfg) (Name e)) (filter (up_entry J cfg v) es)"
proof (induction es)
  case Nil
  then show ?case by (simp add: records_def ups_def)
next
  case (Cons e es)
  then show ?case
    by (cases "entry_migration J cfg e")
       (auto simp: records_def ups_def up_entry_def dest: entry_migration_path)
qed

lemma downs_paths:
  "map mPath (downs (records J cfg es) v) =
     map (\<lambda>e. J (Path cfg) (Name e)) (filter (down_entry J cfg v) es)"
proof (induction es)
  case Nil
  then show ?case by (simp add: records_def downs_def)
next
  case (Cons e es)
  then show ?case
    by (cases "entry_migration J cfg e")
       (auto simp: records_def downs_def down_entry_def dest: entry_migration_path)
qed

lemma concat_map_single:
  assumes "distinct ks"
  shows "concat (map (\<lambda>k. if k = v \<and> Q then [a] else []) ks) = (if v \<in> set ks \<and> Q then [a] else [])"
  using assms by (induction ks) auto

lemma filter_dup_up_group:
  "filter (is_dup_up v) (group_checks cfg k g) =
     (if k = v \<and> length (Up g) > 1 then [DuplicateUp v (joinPaths (Up g))] else [])"
  by (simp add: group_checks_def Let_def)

lemma filter_dup_down_group:
  "filter (is_dup_down v) (group_checks cfg k g) =
     (if k = v \<and> length (Down g) > 1 then [DuplicateDown v (joinPaths (Down g))] else [])"
  by (simp add: group_checks_def Let_def)

lemma ups_in_keys: "ups ms v \<noteq> [] \<Longrightarrow> v \<in> set (version_keys ms)"
  by (auto simp: version_keys_props ups_def filter_empty_conv)

lemma downs_in_keys: "downs ms v \<noteq> [] \<Longrightarrow> v \<in> set (version_keys ms)"
  by (auto simp: version_keys_props downs_def filter_empty_conv)

lemma filter_group_part:
  assumes "\<And>k. filter P (group_checks cfg k (group_of ms k)) =
              (if k = v \<and> Q then [a] else [])"
    and "Q \<Longrightarrow> v \<in> set (version_keys ms)"
  shows "filter P (concat (map (\<lambda>k. group_checks cfg k (group_of ms k)) (version_keys ms)))
           = (if Q then [a] else [])"
proof -
  have "filter P (concat (map (\<lambda>k. group_checks cfg k (group_of ms k)) (version_keys ms)))
      = concat (map (\<lambda>k. if k = v \<and> Q then [a] else []) (version_keys ms))"
    by (simp add: filter_concat comp_def assms(1))
  also have "\<dots> = (if v \<in> set (version_keys ms) \<and> Q then [a] else [])"
    by (rule concat_map_single) (rule version_keys_props)
  finally show ?thesis using assms(2) by auto
qed

lemma filter_versioned_parts:
  assumes "\<And>x. P x \<Longrightarrow> version_of x \<noteq> None"
    and "\<And>x. x \<in> set E \<Longrightarrow> per_entry_kind x"
    and "\<And>x. x \<in> set R \<Longrightarrow> is_gap x"
  shows "filter P (E @ G @ R) = filter P G"
proof -
  have "filter P E = []" using assms(1,2) kinds_disjoint(1) by (fastforce simp: filter_empty_conv)
  moreover have "filter P R = []" using assms(1,3) kinds_disjoint(2) by (fastforce simp: filter_empty_conv)
  ultimately show ?thesis by simp
qed

lemma map_filter_append: "List.map_filter f (xs @ ys) = List.map_filter f xs @ List.map_filter f ys"
  by (simp add: map_filter_def)

lemma map_filter_none: "(\<And>x. x \<in> set xs \<Longrightarrow> f x = None) \<Longrightarrow> List.map_filter f xs = []"
  by (induction xs) simp_all

lemma map_filter_group:
  "List.map_filter version_of (group_checks cfg k g) = replicate (length (group_checks cfg k g)) k"
proof -
  have "\<And>xs. (\<And>x. x \<in> set xs \<Longrightarrow> version_of x = Some k) \<Longrightarrow>
      List.map_filter version_of xs = replicate (length xs) k"
  proof -
    fix xs :: "violation list"
    show "(\<And>x. x \<in> set xs \<Longrightarrow> version_of x = Some k) \<Longrightarrow>
      List.map_filter version_of xs = replicate (length xs) k"
      by (induction xs) simp_all
  qed
  then show ?thesis using group_checks_version by blast
qed

lemma sorted_group_part:
  assumes "sorted ks"
  shows "sorted (List.map_filter version_of (concat (map (\<lambda>k. group_checks cfg k (g k)) ks)))
       \<and> set (List.map_filter version_of (concat (map (\<lambda>k. group_checks cfg k (g k)) ks))) \<subseteq> set ks"
  using assms
proof (induction ks)
  case Nil
  then show ?case by simp
next
  case (Cons k ks)
  then have IH: "sorted (List.map_filter version_of (concat (map (\<lambda>k. group_checks cfg k (g k)) ks)))"
    "set (List.map_filter version_of (concat (map (\<lambda>k. group_checks cfg k (g k)) ks))) \<subseteq> set ks"
    and le: "\<forall>x\<in>set ks. k \<le> x"
    by auto
  show ?case
    using IH le
    by (auto simp: map_filter_append map_filter_group sorted_append)
qed

text \<open>
  Claim C5. For every version, the output of a run holds exactly one duplicate-up violation
  when the version has more than one up-record, and none otherwise; its text is the paths of
  the up-records joined with a comma and a space, and these are the paths of the entries
  that gave the up-records, in the order of the directory listing. The same holds of the
  down-records. The versions of the violations of the loop over the version groups
  (duplicates, pairing, names) are ascending in the output.
\<close>

theorem duplicate_rule:
  assumes "DirStat fs = StatIsDir" and "ReadDir fs = Inr es"
  shows "\<exists>out. Lint J cfg fs = Inr out
      \<and> (\<forall>v. filter (is_dup_up v) out =
              (if length (ups (records J cfg es) v) > 1
               then [DuplicateUp v (strings_Join (map mPath (ups (records J cfg es) v)) '', '')]
               else []))
      \<and> (\<forall>v. filter (is_dup_down v) out =
              (if length (downs (records J cfg es) v) > 1
               then [DuplicateDown v (strings_Join (map mPath (downs (records J cfg es) v)) '', '')]
               else []))
      \<and> (\<forall>v. map mPath (ups (records J cfg es) v) =
              map (\<lambda>e. J (Path cfg) (Name e)) (filter (up_entry J cfg v) es))
      \<and> (\<forall>v. map mPath (downs (records J cfg es) v) =
              map (\<lambda>e. J (Path cfg) (Name e)) (filter (down_entry J cfg v) es))
      \<and> sorted (List.map_filter version_of out)"
proof -
  let ?ms = "records J cfg es"
  let ?E = "concat (map (entry_errors J cfg) es)"
  let ?G = "concat (map (\<lambda>v. group_checks cfg v (group_of ?ms v)) (version_keys ?ms))"
  let ?P = "if NoGaps cfg then gaps (version_keys ?ms) else []"
  have L: "Lint J cfg fs = Inr (?E @ ?G @ ?P)" by (rule Lint_char[OF assms])
  have up: "\<forall>v. filter (is_dup_up v) (?E @ ?G @ ?P) =
              (if length (ups ?ms v) > 1
               then [DuplicateUp v (strings_Join (map mPath (ups ?ms v)) '', '')] else [])"
  proof
    fix v
    have "filter (is_dup_up v) (?E @ ?G @ ?P) = filter (is_dup_up v) ?G"
    proof (rule filter_versioned_parts)
      fix x show "is_dup_up v x \<Longrightarrow> version_of x \<noteq> None" by (cases x) simp_all
    qed (erule entry_part_kind, erule gap_part_kind)
    also have "\<dots> = (if length (ups ?ms v) > 1 then [DuplicateUp v (joinPaths (ups ?ms v))] else [])"
    proof (rule filter_group_part)
      fix k show "filter (is_dup_up v) (group_checks cfg k (group_of ?ms k)) =
         (if k = v \<and> length (ups ?ms v) > 1 then [DuplicateUp v (joinPaths (ups ?ms v))] else [])"
        by (auto simp: filter_dup_up_group group_of_def)
    next
      assume "length (ups ?ms v) > 1"
      then show "v \<in> set (version_keys ?ms)" by (intro ups_in_keys) auto
    qed
    finally show "filter (is_dup_up v) (?E @ ?G @ ?P) =
              (if length (ups ?ms v) > 1
               then [DuplicateUp v (strings_Join (map mPath (ups ?ms v)) '', '')] else [])"
      by (simp add: joinPaths_def)
  qed
  have down: "\<forall>v. filter (is_dup_down v) (?E @ ?G @ ?P) =
              (if length (downs ?ms v) > 1
               then [DuplicateDown v (strings_Join (map mPath (downs ?ms v)) '', '')] else [])"
  proof
    fix v
    have "filter (is_dup_down v) (?E @ ?G @ ?P) = filter (is_dup_down v) ?G"
    proof (rule filter_versioned_parts)
      fix x show "is_dup_down v x \<Longrightarrow> version_of x \<noteq> None" by (cases x) simp_all
    qed (erule entry_part_kind, erule gap_part_kind)
    also have "\<dots> = (if length (downs ?ms v) > 1 then [DuplicateDown v (joinPaths (downs ?ms v))] else [])"
    proof (rule filter_group_part)
      fix k show "filter (is_dup_down v) (group_checks cfg k (group_of ?ms k)) =
         (if k = v \<and> length (downs ?ms v) > 1 then [DuplicateDown v (joinPaths (downs ?ms v))] else [])"
        by (auto simp: filter_dup_down_group group_of_def)
    next
      assume "length (downs ?ms v) > 1"
      then show "v \<in> set (version_keys ?ms)" by (intro downs_in_keys) auto
    qed
    finally show "filter (is_dup_down v) (?E @ ?G @ ?P) =
              (if length (downs ?ms v) > 1
               then [DuplicateDown v (strings_Join (map mPath (downs ?ms v)) '', '')] else [])"
      by (simp add: joinPaths_def)
  qed
  have e0: "List.map_filter version_of ?E = []"
    by (rule map_filter_none) (use entry_part_kind kinds_disjoint(1) in blast)
  have p0: "List.map_filter version_of ?P = []"
    by (rule map_filter_none) (use gap_part_kind kinds_disjoint(2) in blast)
  have so: "sorted (List.map_filter version_of (?E @ ?G @ ?P))"
    using sorted_group_part[OF version_keys_props(1), of cfg "group_of ?ms" ?ms]
    by (simp only: map_filter_append e0 p0 append_Nil append_Nil2)
  from L up down so ups_paths[of J cfg es] downs_paths[of J cfg es] show ?thesis by blast
qed

text \<open>
  Claim C5 on a directory with two up-migrations of version 1.
\<close>

theorem duplicate_rule_witness:
  "Lint slash_join default_config (directory_of [''000001_a.up.sql'', ''000001_b.up.sql''])
     = Inr [DuplicateUp 1 ''d/000001_a.up.sql, d/000001_b.up.sql'']
   \<and> 1 < length (ups (records slash_join default_config
                    (map regular_file [''000001_a.up.sql'', ''000001_b.up.sql''])) 1)
   \<and> filter (is_dup_up 1) [DuplicateUp 1 ''d/000001_a.up.sql, d/000001_b.up.sql'']
       = [DuplicateUp 1 (strings_Join (map mPath (ups (records slash_join default_config
                    (map regular_file [''000001_a.up.sql'', ''000001_b.up.sql''])) 1)) '', '')]
   \<and> sorted (List.map_filter version_of [DuplicateUp 1 ''d/000001_a.up.sql, d/000001_b.up.sql''])"
proof -
  let ?names = "[''000001_a.up.sql'', ''000001_b.up.sql'']"
  have run: "Lint slash_join default_config (directory_of ?names)
     = Inr [DuplicateUp 1 ''d/000001_a.up.sql, d/000001_b.up.sql'']"
    by code_simp
  have two: "1 < length (ups (records slash_join default_config (map regular_file ?names)) 1)"
    by code_simp
  have d: "DirStat (directory_of ?names) = StatIsDir"
    "ReadDir (directory_of ?names) = Inr (map regular_file ?names)"
    by (simp_all add: directory_of_def)
  from duplicate_rule[OF d, of slash_join default_config] obtain out
    where o: "Lint slash_join default_config (directory_of ?names) = Inr out"
      and up: "\<forall>v. filter (is_dup_up v) out =
              (if length (ups (records slash_join default_config (map regular_file ?names)) v) > 1
               then [DuplicateUp v (strings_Join (map mPath
                       (ups (records slash_join default_config (map regular_file ?names)) v)) '', '')]
               else [])"
      and so: "sorted (List.map_filter version_of out)"
    by blast
  from o run have out: "out = [DuplicateUp 1 ''d/000001_a.up.sql, d/000001_b.up.sql'']"
    by (simp only: sum.inject)
  from up[rule_format, of 1] two
  have "filter (is_dup_up 1) out = [DuplicateUp 1 (strings_Join (map mPath
          (ups (records slash_join default_config (map regular_file ?names)) 1)) '', '')]"
    by (simp only: if_True)
  with run two so show ?thesis unfolding out by blast
qed

subsection \<open>Names of a pair (C6)\<close>

lemma length_one_conv: "(length xs = Suc 0) = (\<exists>u. xs = [u])"
  by (cases xs) auto

lemma name_ext_in_group:
  "NameExtMismatch v a b \<in> set (group_checks cfg k g) \<longleftrightarrow>
     k = v \<and> StrictNameMatch cfg
     \<and> (\<exists>u d. Up g = [u] \<and> Down g = [d]
           \<and> (NamePart u \<noteq> NamePart d \<or> ExtPart u \<noteq> ExtPart d)
           \<and> a = FileName u \<and> b = FileName d)"
proof (cases "StrictNameMatch cfg \<and> length (Up g) = 1 \<and> length (Down g) = 1")
  case True
  then obtain u d where ud: "Up g = [u]" "Down g = [d]" by (auto simp: length_one_conv)
  with True show ?thesis by (auto simp: group_checks_def Let_def)
next
  case False
  then have "NameExtMismatch v a b \<notin> set (group_checks cfg k g)"
    by (auto simp: group_checks_def Let_def split: if_splits)
  moreover from False have "\<not> (StrictNameMatch cfg \<and> (\<exists>u d. Up g = [u] \<and> Down g = [d]))"
    by auto
  ultimately show ?thesis by blast
qed

text \<open>
  Claim C6. A name/ext mismatch for a version, naming two files, is in the output of a run
  exactly when strict-name-match is enabled, the version has exactly one up-record and
  exactly one down-record, their name parts or their extension parts differ, and the two
  files are theirs. For a version with more than one up-record, or more than one
  down-record, the output has no name/ext mismatch.
\<close>

theorem name_ext_rule:
  assumes "DirStat fs = StatIsDir" and "ReadDir fs = Inr es"
  shows "\<exists>out. Lint J cfg fs = Inr out
      \<and> (\<forall>v a b. NameExtMismatch v a b \<in> set out \<longleftrightarrow>
            StrictNameMatch cfg
            \<and> (\<exists>u d. ups (records J cfg es) v = [u] \<and> downs (records J cfg es) v = [d]
                  \<and> (NamePart u \<noteq> NamePart d \<or> ExtPart u \<noteq> ExtPart d)
                  \<and> a = FileName u \<and> b = FileName d))
      \<and> (\<forall>v. length (ups (records J cfg es) v) > 1 \<or> length (downs (records J cfg es) v) > 1
             \<longrightarrow> filter (is_name_ext v) out = [])"
proof -
  let ?ms = "records J cfg es"
  let ?E = "concat (map (entry_errors J cfg) es)"
  let ?G = "concat (map (\<lambda>v. group_checks cfg v (group_of ?ms v)) (version_keys ?ms))"
  let ?P = "if NoGaps cfg then gaps (version_keys ?ms) else []"
  let ?out = "?E @ ?G @ ?P"
  have L: "Lint J cfg fs = Inr ?out" by (rule Lint_char[OF assms])
  have iff: "\<forall>v a b. NameExtMismatch v a b \<in> set ?out \<longleftrightarrow>
            StrictNameMatch cfg
            \<and> (\<exists>u d. ups ?ms v = [u] \<and> downs ?ms v = [d]
                  \<and> (NamePart u \<noteq> NamePart d \<or> ExtPart u \<noteq> ExtPart d)
                  \<and> a = FileName u \<and> b = FileName d)"
  proof (intro allI)
    fix v a b
    let ?x = "NameExtMismatch v a b"
    let ?rhs = "StrictNameMatch cfg
            \<and> (\<exists>u d. ups ?ms v = [u] \<and> downs ?ms v = [d]
                  \<and> (NamePart u \<noteq> NamePart d \<or> ExtPart u \<noteq> ExtPart d)
                  \<and> a = FileName u \<and> b = FileName d)"
    have nE: "?x \<notin> set ?E" using entry_part_kind[of ?x J cfg es] by auto
    have nP: "?x \<notin> set ?P" using gap_part_kind[of ?x cfg] by auto
    have "?x \<in> set ?out \<longleftrightarrow> ?x \<in> set ?G" using nE nP by (simp only: set_append Un_iff) blast
    also have "\<dots> \<longleftrightarrow> (\<exists>k\<in>set (version_keys ?ms). ?x \<in> set (group_checks cfg k (group_of ?ms k)))"
      by auto
    also have "\<dots> \<longleftrightarrow> (v \<in> set (version_keys ?ms) \<and> ?rhs)"
      by (auto simp: name_ext_in_group group_of_def)
    also have "\<dots> \<longleftrightarrow> ?rhs"
      using ups_in_keys[of ?ms v] by auto
    finally show "?x \<in> set ?out \<longleftrightarrow> ?rhs" .
  qed
  have none: "\<forall>v. length (ups ?ms v) > 1 \<or> length (downs ?ms v) > 1
             \<longrightarrow> filter (is_name_ext v) ?out = []"
  proof (intro allI impI)
    fix v assume dup: "length (ups ?ms v) > 1 \<or> length (downs ?ms v) > 1"
    have "\<And>x. x \<in> set ?out \<Longrightarrow> \<not> is_name_ext v x"
    proof
      fix x assume x: "x \<in> set ?out" and n: "is_name_ext v x"
      from n obtain a b where "x = NameExtMismatch v a b" by (cases x) auto
      with x iff obtain u d where "ups ?ms v = [u]" "downs ?ms v = [d]" by blast
      with dup show False by auto
    qed
    then show "filter (is_name_ext v) ?out = []" by (simp only: filter_empty_conv) blast
  qed
  from L iff none show ?thesis by blast
qed

text \<open>
  Claim C6 on two directories: one up and one down migration of version 1 with different
  names, and the same with a second up migration.
\<close>

theorem name_ext_rule_witness:
  "Lint slash_join (default_config\<lparr>StrictNameMatch := True\<rparr>)
      (directory_of [''000001_bar.down.sql'', ''000001_foo.up.sql''])
     = Inr [NameExtMismatch 1 ''000001_foo.up.sql'' ''000001_bar.down.sql'']
   \<and> (\<exists>u d. ups (records slash_join (default_config\<lparr>StrictNameMatch := True\<rparr>)
                (map regular_file [''000001_bar.down.sql'', ''000001_foo.up.sql''])) 1 = [u]
          \<and> downs (records slash_join (default_config\<lparr>StrictNameMatch := True\<rparr>)
                (map regular_file [''000001_bar.down.sql'', ''000001_foo.up.sql''])) 1 = [d]
          \<and> (NamePart u \<noteq> NamePart d \<or> ExtPart u \<noteq> ExtPart d))
   \<and> Lint slash_join (default_config\<lparr>StrictNameMatch := True\<rparr>)
      (directory_of [''000001_bar.down.sql'', ''000001_bar.up.sql'', ''000001_foo.up.sql''])
     = Inr [DuplicateUp 1 ''d/000001_bar.up.sql, d/000001_foo.up.sql'']
   \<and> 1 < length (ups (records slash_join (default_config\<lparr>StrictNameMatch := True\<rparr>)
                (map regular_file [''000001_bar.down.sql'', ''000001_bar.up.sql'', ''000001_foo.up.sql''])) 1)
   \<and> filter (is_name_ext 1) [DuplicateUp 1 ''d/000001_bar.up.sql, d/000001_foo.up.sql''] = []"
proof -
  let ?cfg = "default_config\<lparr>StrictNameMatch := True\<rparr>"
  let ?n1 = "[''000001_bar.down.sql'', ''000001_foo.up.sql'']"
  let ?n2 = "[''000001_bar.down.sql'', ''000001_bar.up.sql'', ''000001_foo.up.sql'']"
  have r1: "Lint slash_join ?cfg (directory_of ?n1)
     = Inr [NameExtMismatch 1 ''000001_foo.up.sql'' ''000001_bar.down.sql'']" by code_simp
  have r2: "Lint slash_join ?cfg (directory_of ?n2)
     = Inr [DuplicateUp 1 ''d/000001_bar.up.sql, d/000001_foo.up.sql'']" by code_simp
  have two: "1 < length (ups (records slash_join ?cfg (map regular_file ?n2)) 1)" by code_simp
  have d1: "DirStat (directory_of ?n1) = StatIsDir"
    "ReadDir (directory_of ?n1) = Inr (map regular_file ?n1)"
    by (simp_all add: directory_of_def)
  have d2: "DirStat (directory_of ?n2) = StatIsDir"
    "ReadDir (directory_of ?n2) = Inr (map regular_file ?n2)"
    by (simp_all add: directory_of_def)
  have m: "NameExtMismatch 1 ''000001_foo.up.sql'' ''000001_bar.down.sql''
      \<in> set [NameExtMismatch 1 ''000001_foo.up.sql'' ''000001_bar.down.sql'']" by simp
  from name_ext_rule[OF d1, of slash_join ?cfg] obtain out1
    where o1: "Lint slash_join ?cfg (directory_of ?n1) = Inr out1"
      and iff1: "\<forall>v a b. NameExtMismatch v a b \<in> set out1 \<longleftrightarrow>
            StrictNameMatch ?cfg
            \<and> (\<exists>u d. ups (records slash_join ?cfg (map regular_file ?n1)) v = [u]
                  \<and> downs (records slash_join ?cfg (map regular_file ?n1)) v = [d]
                  \<and> (NamePart u \<noteq> NamePart d \<or> ExtPart u \<noteq> ExtPart d)
                  \<and> a = FileName u \<and> b = FileName d)"
    by blast
  from o1 r1 have "out1 = [NameExtMismatch 1 ''000001_foo.up.sql'' ''000001_bar.down.sql'']"
    by (simp only: sum.inject)
  with m have "NameExtMismatch 1 ''000001_foo.up.sql'' ''000001_bar.down.sql'' \<in> set out1"
    by simp
  with iff1 have a: "\<exists>u d. ups (records slash_join ?cfg (map regular_file ?n1)) 1 = [u]
          \<and> downs (records slash_join ?cfg (map regular_file ?n1)) 1 = [d]
          \<and> (NamePart u \<noteq> NamePart d \<or> ExtPart u \<noteq> ExtPart d)"
    by blast
  from name_ext_rule[OF d2, of slash_join ?cfg] obtain out2
    where o2: "Lint slash_join ?cfg (directory_of ?n2) = Inr out2"
      and none2: "\<forall>v. length (ups (records slash_join ?cfg (map regular_file ?n2)) v) > 1
             \<or> length (downs (records slash_join ?cfg (map regular_file ?n2)) v) > 1
             \<longrightarrow> filter (is_name_ext v) out2 = []"
    by blast
  from o2 r2 have out2: "out2 = [DuplicateUp 1 ''d/000001_bar.up.sql, d/000001_foo.up.sql'']"
    by (simp only: sum.inject)
  from none2 two have "filter (is_name_ext 1) out2 = []" by blast
  then have b: "filter (is_name_ext 1) [DuplicateUp 1 ''d/000001_bar.up.sql, d/000001_foo.up.sql''] = []"
    unfolding out2 .
  from r1 a r2 two b show ?thesis by blast
qed

subsection \<open>The extension rule (C3)\<close>

lemma lint_entry_errors:
  "lintErrors (lint_entry J cfg st e) = lintErrors st @ entry_errors J cfg e"
  by (cases "entry_migration J cfg e") (simp_all add: lint_entry_decomp)

lemma filter_ext_file_errors:
  "filter is_ext_mismatch (file_errors cfg name p) = ext_enforcement cfg name p"
proof -
  have a: "filter is_ext_mismatch (ext_enforcement cfg name p) = ext_enforcement cfg name p"
    by (rule filter_True) (auto dest: ext_enforcement_kind)
  have b: "filter is_ext_mismatch (digits_check cfg p s) = []" for s
    by (simp add: digits_check_def)
  show ?thesis
    by (simp add: file_errors_def a b split: option.splits sum.splits)
qed

lemma ext_enforcement_enforced:
  assumes "Ext cfg \<noteq> []" and "EnforceExt cfg"
  shows "ext_enforcement cfg name p =
     (if migration_shaped name \<and> ext_fails cfg name \<and> \<not> (matches name = None \<and> StrictPattern cfg)
      then [formatExtMismatch p (Ext cfg) (finalExtForMatch name) (extPartOpt name)] else [])"
  using assms by (auto simp: ext_enforcement_def migration_shaped_def ext_fails_def)

lemma filter_ext_entry_errors:
  assumes "Ext cfg \<noteq> []" and "EnforceExt cfg"
  shows "filter is_ext_mismatch (entry_errors J cfg e) =
     (if ext_reported cfg e
      then [formatExtMismatch (J (Path cfg) (Name e)) (Ext cfg)
              (finalExtForMatch (Name e)) (extPartOpt (Name e))]
      else [])"
proof (cases "linted e")
  case True
  then show ?thesis
    by (simp add: entry_errors_def filter_ext_file_errors ext_enforcement_enforced[OF assms]
          ext_reported_def)
next
  case False
  then show ?thesis
    by (cases "Type e"; cases "Stat e") (simp_all add: entry_errors_def ext_reported_def)
qed

lemma concat_map_if: "concat (map (\<lambda>e. if P e then [f e] else []) es) = map f (filter P es)"
  by (induction es) simp_all

lemma unmatched_instead:
  assumes "Ext cfg \<noteq> []" and "EnforceExt cfg" and "linted e" and "matches (Name e) = None"
    and "StrictPattern cfg" and "isMigrationLike (Name e) \<or> hasDirection (Name e)"
    and "ext_fails cfg (Name e)"
  shows "entry_errors J cfg e = [UnmatchedFile (J (Path cfg) (Name e))]"
  using assms
  by (simp add: entry_errors_def file_errors_def ext_enforcement_def isCandidate_def ext_fails_def)

text \<open>
  Claim C3. With an extension filter and enforcement, the extension mismatches in the output
  of a run are, in the order of the listing, one for each entry that is linted, is canonical,
  migration-like or has a direction token, fails \<^verbatim>\<open>extMatches\<close> on the values the loop
  body computes, and is not at once non-canonical under strict-pattern (\<open>ext_reported\<close>).
  The output is what the loop body appends for each entry, followed by violations of other
  kinds. An entry of the excepted sort, non-canonical under strict-pattern, is reported by
  the unmatched-file rule alone.
\<close>

theorem extension_rule:
  assumes "DirStat fs = StatIsDir" and "ReadDir fs = Inr es"
    and "Ext cfg \<noteq> []" and "EnforceExt cfg"
  shows "\<exists>out rest. Lint J cfg fs = Inr out
      \<and> filter is_ext_mismatch out =
          map (\<lambda>e. formatExtMismatch (J (Path cfg) (Name e)) (Ext cfg)
                     (finalExtForMatch (Name e)) (extPartOpt (Name e)))
              (filter (ext_reported cfg) es)
      \<and> out = concat (map (entry_errors J cfg) es) @ rest
      \<and> filter per_entry_kind rest = []
      \<and> (\<forall>e. linted e \<and> matches (Name e) = None \<and> StrictPattern cfg
               \<and> (isMigrationLike (Name e) \<or> hasDirection (Name e)) \<and> ext_fails cfg (Name e)
             \<longrightarrow> entry_errors J cfg e = [UnmatchedFile (J (Path cfg) (Name e))])
      \<and> (\<forall>st e. lintErrors (lint_entry J cfg st e) = lintErrors st @ entry_errors J cfg e)"
proof -
  let ?ms = "records J cfg es"
  let ?E = "concat (map (entry_errors J cfg) es)"
  let ?G = "concat (map (\<lambda>v. group_checks cfg v (group_of ?ms v)) (version_keys ?ms))"
  let ?P = "if NoGaps cfg then gaps (version_keys ?ms) else []"
  let ?fmt = "\<lambda>e. formatExtMismatch (J (Path cfg) (Name e)) (Ext cfg)
                     (finalExtForMatch (Name e)) (extPartOpt (Name e))"
  have L: "Lint J cfg fs = Inr (?E @ (?G @ ?P))" using Lint_char[OF assms(1,2)] by simp
  have g: "filter is_ext_mismatch ?G = []"
    by (rule filter_False) (use group_part_version kinds_disjoint(3) is_ext_mismatch_per_entry in blast)
  have p: "filter is_ext_mismatch ?P = []"
    by (rule filter_False) (use gap_part_kind kinds_disjoint(2) is_ext_mismatch_per_entry in blast)
  have "filter is_ext_mismatch ?E = concat (map (\<lambda>e. filter is_ext_mismatch (entry_errors J cfg e)) es)"
    by (simp add: filter_concat comp_def)
  also have "\<dots> = concat (map (\<lambda>e. if ext_reported cfg e then [?fmt e] else []) es)"
    by (simp only: filter_ext_entry_errors[OF assms(3,4)])
  also have "\<dots> = map ?fmt (filter (ext_reported cfg) es)" by (rule concat_map_if)
  finally have e: "filter is_ext_mismatch ?E = map ?fmt (filter (ext_reported cfg) es)" .
  have F: "filter is_ext_mismatch (?E @ (?G @ ?P)) = map ?fmt (filter (ext_reported cfg) es)"
    by (simp only: filter_append e g p append_Nil2)
  have g2: "filter per_entry_kind ?G = []"
    by (rule filter_False) (use group_part_version kinds_disjoint(3) in blast)
  have p2: "filter per_entry_kind ?P = []"
    by (rule filter_False) (use gap_part_kind kinds_disjoint(2) in blast)
  have R: "filter per_entry_kind (?G @ ?P) = []" by (simp only: filter_append g2 p2 append_Nil2)
  have U: "\<forall>e. linted e \<and> matches (Name e) = None \<and> StrictPattern cfg
               \<and> (isMigrationLike (Name e) \<or> hasDirection (Name e)) \<and> ext_fails cfg (Name e)
             \<longrightarrow> entry_errors J cfg e = [UnmatchedFile (J (Path cfg) (Name e))]"
    using unmatched_instead[OF assms(3,4)] by blast
  from L F R U lint_entry_errors[of J cfg] show ?thesis by blast
qed

text \<open>
  Claim C3 on a directory with a matching file, a canonical file with another extension and
  a file with a bare direction token, without and with strict-pattern.
\<close>

theorem extension_rule_witness:
  "Lint slash_join (default_config\<lparr>Ext := ''sql'', EnforceExt := True\<rparr>)
      (directory_of [''000001_a.down.txt'', ''000001_a.up.sql'', ''000002_b.up''])
     = Inr [ExtMismatchFinal ''d/000001_a.down.txt'' ''txt'' ''txt'' ''sql'',
            ExtMismatchFinal ''d/000002_b.up'' ''<none>'' ''<none>'' ''sql'']
   \<and> filter (ext_reported (default_config\<lparr>Ext := ''sql'', EnforceExt := True\<rparr>))
        (map regular_file [''000001_a.down.txt'', ''000001_a.up.sql'', ''000002_b.up''])
      = [regular_file ''000001_a.down.txt'', regular_file ''000002_b.up'']
   \<and> Lint slash_join (default_config\<lparr>Ext := ''sql'', EnforceExt := True, StrictPattern := True\<rparr>)
      (directory_of [''000001_a.down.txt'', ''000001_a.up.sql'', ''000002_b.up''])
     = Inr [ExtMismatchFinal ''d/000001_a.down.txt'' ''txt'' ''txt'' ''sql'',
            UnmatchedFile ''d/000002_b.up'']
   \<and> entry_errors slash_join (default_config\<lparr>Ext := ''sql'', EnforceExt := True, StrictPattern := True\<rparr>)
        (regular_file ''000002_b.up'') = [UnmatchedFile ''d/000002_b.up'']"
proof -
  let ?cfg = "default_config\<lparr>Ext := ''sql'', EnforceExt := True\<rparr>"
  let ?cfgs = "default_config\<lparr>Ext := ''sql'', EnforceExt := True, StrictPattern := True\<rparr>"
  let ?names = "[''000001_a.down.txt'', ''000001_a.up.sql'', ''000002_b.up'']"
  have r1: "Lint slash_join ?cfg (directory_of ?names)
     = Inr [ExtMismatchFinal ''d/000001_a.down.txt'' ''txt'' ''txt'' ''sql'',
            ExtMismatchFinal ''d/000002_b.up'' ''<none>'' ''<none>'' ''sql'']" by code_simp
  have r2: "Lint slash_join ?cfgs (directory_of ?names)
     = Inr [ExtMismatchFinal ''d/000001_a.down.txt'' ''txt'' ''txt'' ''sql'',
            UnmatchedFile ''d/000002_b.up'']" by code_simp
  have f: "filter (ext_reported ?cfg) (map regular_file ?names)
      = [regular_file ''000001_a.down.txt'', regular_file ''000002_b.up'']" by code_simp
  have d: "DirStat (directory_of ?names) = StatIsDir"
    "ReadDir (directory_of ?names) = Inr (map regular_file ?names)"
    by (simp_all add: directory_of_def)
  have c: "Ext ?cfgs \<noteq> []" "EnforceExt ?cfgs" by (simp_all add: default_config_def)
  have h: "linted (regular_file ''000002_b.up'') \<and> matches (Name (regular_file ''000002_b.up'')) = None
      \<and> StrictPattern ?cfgs
      \<and> (isMigrationLike (Name (regular_file ''000002_b.up'')) \<or> hasDirection (Name (regular_file ''000002_b.up'')))
      \<and> ext_fails ?cfgs (Name (regular_file ''000002_b.up''))"
    by code_simp
  from extension_rule[OF d c, of slash_join] h
  have u: "entry_errors slash_join ?cfgs (regular_file ''000002_b.up'')
      = [UnmatchedFile (slash_join (Path ?cfgs) (Name (regular_file ''000002_b.up'')))]"
    by blast
  have "slash_join (Path ?cfgs) (Name (regular_file ''000002_b.up'')) = ''d/000002_b.up''"
    by (simp add: slash_join_def default_config_def regular_file_def)
  with u have u': "entry_errors slash_join ?cfgs (regular_file ''000002_b.up'')
      = [UnmatchedFile ''d/000002_b.up'']" by simp
  from r1 f r2 u' show ?thesis by blast
qed

subsection \<open>The extension filter (C9)\<close>

lemma canonical_ext_fails:
  assumes m: "matches name = Some m" and ext: "Ext cfg \<noteq> []"
    and fail: "\<not> extMatches (Ext cfg) (finalExtForMatch name) (sub m 4)"
  shows "\<not> extMatches (Ext cfg) (finalExtForMatch name) (extPartOpt name)"
proof (cases "contains_dot (Ext cfg)")
  case True
  from canonical_has_direction[OF m] have "extPartOpt name = sub m 4 \<or> extPartOpt name = []"
    by simp
  with True ext fail show ?thesis by (auto simp: extMatches_def)
next
  case False
  with fail ext show ?thesis by (auto simp: extMatches_def split: if_splits)
qed

lemma filtered_entry:
  assumes m: "matches (Name e) = Some m" and ext: "Ext cfg \<noteq> []"
    and fail: "\<not> extMatches (Ext cfg) (finalExtForMatch (Name e)) (sub m 4)"
  shows "entry_migration J cfg e = None"
    and "linted e \<Longrightarrow> entry_errors J cfg e =
       (if EnforceExt cfg
        then [formatExtMismatch (J (Path cfg) (Name e)) (Ext cfg)
                (finalExtForMatch (Name e)) (extPartOpt (Name e))]
        else [])"
proof -
  show "entry_migration J cfg e = None"
    using m ext fail by (simp add: entry_migration_def file_migration_def)
  assume l: "linted e"
  have "file_errors cfg (Name e) (J (Path cfg) (Name e)) =
      ext_enforcement cfg (Name e) (J (Path cfg) (Name e))"
    using m ext fail by (simp add: file_errors_def)
  also have "\<dots> = (if EnforceExt cfg
        then [formatExtMismatch (J (Path cfg) (Name e)) (Ext cfg)
                (finalExtForMatch (Name e)) (extPartOpt (Name e))]
        else [])"
    using m ext canonical_ext_fails[OF m ext fail] by (simp add: ext_enforcement_def)
  finally show "entry_errors J cfg e =
       (if EnforceExt cfg
        then [formatExtMismatch (J (Path cfg) (Name e)) (Ext cfg)
                (finalExtForMatch (Name e)) (extPartOpt (Name e))]
        else [])"
    using l by (simp add: entry_errors_def)
qed

lemma records_append: "records J cfg (xs @ ys) = records J cfg xs @ records J cfg ys"
  by (simp add: records_def map_filter_append)

lemma records_skip:
  "entry_migration J cfg e = None \<Longrightarrow> records J cfg (es1 @ e # es2) = records J cfg (es1 @ es2)"
  by (simp add: records_append) (simp add: records_def)

text \<open>
  Claim C9. A linted canonical entry whose extension fails \<^verbatim>\<open>extMatches\<close> against a
  configured filter leaves the version groups and the version keys as they were: the loop
  body only appends an extension mismatch when enforcement is on, and nothing otherwise. The
  grouped records of a listing with the entry are those of the listing without it, and the
  two runs differ by that one extension mismatch alone.
\<close>

theorem ext_filter_excludes_canonical:
  assumes "linted e" and "matches (Name e) = Some m" and "Ext cfg \<noteq> []"
    and "\<not> extMatches (Ext cfg) (finalExtForMatch (Name e)) (sub m 4)"
  shows "lint_entry J cfg st e =
           st\<lparr>lintErrors := lintErrors st @
                (if EnforceExt cfg
                 then [formatExtMismatch (J (Path cfg) (Name e)) (Ext cfg)
                         (finalExtForMatch (Name e)) (extPartOpt (Name e))]
                 else [])\<rparr>
       \<and> versions (lint_entry J cfg st e) = versions st
       \<and> versionKeys (lint_entry J cfg st e) = versionKeys st
       \<and> records J cfg (es1 @ e # es2) = records J cfg (es1 @ es2)
       \<and> (\<exists>a b tail.
             Lint J cfg \<lparr>DirStat = StatIsDir, ReadDir = Inr (es1 @ e # es2)\<rparr>
               = Inr (a @ (if EnforceExt cfg
                           then [formatExtMismatch (J (Path cfg) (Name e)) (Ext cfg)
                                   (finalExtForMatch (Name e)) (extPartOpt (Name e))]
                           else []) @ b @ tail)
           \<and> Lint J cfg \<lparr>DirStat = StatIsDir, ReadDir = Inr (es1 @ es2)\<rparr> = Inr (a @ b @ tail)
           \<and> a = concat (map (entry_errors J cfg) es1)
           \<and> b = concat (map (entry_errors J cfg) es2)
           \<and> filter per_entry_kind tail = [])"
proof -
  let ?X = "if EnforceExt cfg
            then [formatExtMismatch (J (Path cfg) (Name e)) (Ext cfg)
                    (finalExtForMatch (Name e)) (extPartOpt (Name e))]
            else []"
  let ?ms = "records J cfg (es1 @ es2)"
  let ?tail = "concat (map (\<lambda>v. group_checks cfg v (group_of ?ms v)) (version_keys ?ms))
               @ (if NoGaps cfg then gaps (version_keys ?ms) else [])"
  have none: "entry_migration J cfg e = None" by (rule filtered_entry(1)[OF assms(2,3,4)])
  have errs: "entry_errors J cfg e = ?X" by (rule filtered_entry(2)[OF assms(2,3,4) assms(1)])
  have step: "lint_entry J cfg st e = st\<lparr>lintErrors := lintErrors st @ ?X\<rparr>"
    using none errs by (simp add: lint_entry_decomp)
  have rec: "records J cfg (es1 @ e # es2) = ?ms" by (rule records_skip[OF none])
  have L1: "Lint J cfg \<lparr>DirStat = StatIsDir, ReadDir = Inr (es1 @ e # es2)\<rparr>
      = Inr (concat (map (entry_errors J cfg) es1) @ ?X @ concat (map (entry_errors J cfg) es2) @ ?tail)"
    using Lint_char[of "\<lparr>DirStat = StatIsDir, ReadDir = Inr (es1 @ e # es2)\<rparr>" "es1 @ e # es2" J cfg]
    by (simp add: rec errs)
  have L2: "Lint J cfg \<lparr>DirStat = StatIsDir, ReadDir = Inr (es1 @ es2)\<rparr>
      = Inr (concat (map (entry_errors J cfg) es1) @ concat (map (entry_errors J cfg) es2) @ ?tail)"
    using Lint_char[of "\<lparr>DirStat = StatIsDir, ReadDir = Inr (es1 @ es2)\<rparr>" "es1 @ es2" J cfg]
    by simp
  have g2: "filter per_entry_kind
      (concat (map (\<lambda>v. group_checks cfg v (group_of ?ms v)) (version_keys ?ms))) = []"
    by (rule filter_False) (use group_part_version kinds_disjoint(3) in blast)
  have p2: "filter per_entry_kind (if NoGaps cfg then gaps (version_keys ?ms) else []) = []"
    by (rule filter_False) (use gap_part_kind kinds_disjoint(2) in blast)
  have T: "filter per_entry_kind ?tail = []" by (simp only: filter_append g2 p2 append_Nil2)
  have v: "versions (lint_entry J cfg st e) = versions st"
    "versionKeys (lint_entry J cfg st e) = versionKeys st"
    by (simp_all add: step)
  from step v rec L1 L2 T show ?thesis by blast
qed

text \<open>
  Claim C9 on a directory with an up migration \<^verbatim>\<open>.sql\<close> and a second up migration
  \<^verbatim>\<open>.txt\<close> of the same version, under the filter \<^verbatim>\<open>sql\<close>: with or without
  enforcement, no duplicate is reported, and the pairing rule sees the version as it does
  without the second file.
\<close>

theorem ext_filter_excludes_canonical_witness:
  "linted (regular_file ''000001_b.up.txt'')
   \<and> (\<exists>m. matches (Name (regular_file ''000001_b.up.txt'')) = Some m
         \<and> \<not> extMatches ''sql'' (finalExtForMatch ''000001_b.up.txt'') (sub m 4))
   \<and> records slash_join (default_config\<lparr>Ext := ''sql'', EnforceExt := True\<rparr>)
        ([regular_file ''000001_a.up.sql''] @ regular_file ''000001_b.up.txt'' # [])
      = records slash_join (default_config\<lparr>Ext := ''sql'', EnforceExt := True\<rparr>)
        ([regular_file ''000001_a.up.sql''] @ [])
   \<and> Lint slash_join (default_config\<lparr>Ext := ''sql'', EnforceExt := True, RequireDown := True\<rparr>)
        (directory_of [''000001_a.up.sql'', ''000001_b.up.txt''])
      = Inr [ExtMismatchFinal ''d/000001_b.up.txt'' ''txt'' ''txt'' ''sql'', MissingDown 1]
   \<and> Lint slash_join (default_config\<lparr>Ext := ''sql'', RequireDown := True\<rparr>)
        (directory_of [''000001_a.up.sql'', ''000001_b.up.txt''])
      = Inr [MissingDown 1]
   \<and> Lint slash_join (default_config\<lparr>Ext := ''sql'', EnforceExt := True, RequireDown := True\<rparr>)
        (directory_of [''000001_a.up.sql''])
      = Inr [MissingDown 1]"
proof -
  let ?cfg = "default_config\<lparr>Ext := ''sql'', EnforceExt := True\<rparr>"
  let ?e = "regular_file ''000001_b.up.txt''"
  obtain m where m: "matches (Name ?e) = Some m"
    and f: "\<not> extMatches ''sql'' (finalExtForMatch ''000001_b.up.txt'') (sub m 4)"
  proof -
    have fe: "finalExtForMatch ''000001_b.up.txt'' = ''txt''" by code_simp
    have "matches (Name ?e) =
        Some [1 \<mapsto> ''000001'', 2 \<mapsto> ''b'', 3 \<mapsto> ''up'', 4 \<mapsto> ''txt'']"
      by (simp add: regular_file_def matches_def FindStringSubmatch_def all_runs_def
            migratePattern_def up_or_down_def has_prefix_def is_digit_def is_nl_def)
    moreover have "\<not> extMatches ''sql'' (finalExtForMatch ''000001_b.up.txt'')
        (sub [1 \<mapsto> ''000001'', 2 \<mapsto> ''b'', 3 \<mapsto> ''up'', 4 \<mapsto> ''txt''] 4)"
      by (simp add: fe extMatches_def contains_dot_def sub_def)
    ultimately show ?thesis using that by blast
  qed
  have l: "linted ?e" by (simp add: linted_def regular_file_def)
  have x: "Ext ?cfg \<noteq> []" by (simp add: default_config_def)
  have f': "\<not> extMatches (Ext ?cfg) (finalExtForMatch (Name ?e)) (sub m 4)"
    using f by (simp add: default_config_def regular_file_def)
  from ext_filter_excludes_canonical[OF l m x f', of slash_join _ "[regular_file ''000001_a.up.sql'']" "[]"]
  have r: "records slash_join ?cfg ([regular_file ''000001_a.up.sql''] @ ?e # [])
      = records slash_join ?cfg ([regular_file ''000001_a.up.sql''] @ [])"
    by blast
  have r1: "Lint slash_join (default_config\<lparr>Ext := ''sql'', EnforceExt := True, RequireDown := True\<rparr>)
        (directory_of [''000001_a.up.sql'', ''000001_b.up.txt''])
      = Inr [ExtMismatchFinal ''d/000001_b.up.txt'' ''txt'' ''txt'' ''sql'', MissingDown 1]"
    by code_simp
  have r2: "Lint slash_join (default_config\<lparr>Ext := ''sql'', RequireDown := True\<rparr>)
        (directory_of [''000001_a.up.sql'', ''000001_b.up.txt''])
      = Inr [MissingDown 1]"
    by code_simp
  have r3: "Lint slash_join (default_config\<lparr>Ext := ''sql'', EnforceExt := True, RequireDown := True\<rparr>)
        (directory_of [''000001_a.up.sql''])
      = Inr [MissingDown 1]"
    by code_simp
  from l m f r r1 r2 r3 show ?thesis by blast
qed

subsection \<open>Versions (C4)\<close>









end
